theory Spec2Isabelle
  imports Complex_Main
begin

section \<open>Shared Python data\<close>

text \<open>
  Python numbers as the two scripts use them: unbounded integers and floats. A float is
  represented by the rational number it denotes. Floating-point rounding is not fixed here:
  every operation that rounds takes the rounding function \<open>fl\<close> (the float nearest to a
  rational) as its first argument.
\<close>

datatype pynum = PyInt int | PyFloat rat

datatype exn = StopAsyncIteration | ValueError | IndexError | CancelledError

text \<open>Observable effects of a coroutine: a completed \<open>asyncio.sleep\<close> and a printed item.\<close>

datatype io = Sleep pynum | Print int

section \<open>assignment06/asyncio02.py: the asynchronous iterator\<close>

record AsyncIterator =
  counter :: int

text \<open>\<open>__init__\<close>: the counter starts at 0. \<open>__aiter__\<close> returns the object itself.\<close>

definition AsyncIterator_init :: AsyncIterator where
  "AsyncIterator_init = \<lparr>counter = 0\<rparr>"

definition aiter :: "AsyncIterator \<Rightarrow> AsyncIterator" where
  "aiter self = self"

text \<open>
  \<open>__anext__\<close>: raises \<open>StopAsyncIteration\<close> when the counter is at least 10; otherwise
  increments the counter, sleeps one second and returns the counter. The result is the
  returned value or the exception, the updated object and the effects.
\<close>

definition anext :: "AsyncIterator \<Rightarrow> (exn + int) \<times> AsyncIterator \<times> io list" where
  "anext self =
     (if counter self \<ge> 10 then (Inl StopAsyncIteration, self, [])
      else (let self' = self\<lparr>counter := counter self + 1\<rparr>
            in (Inr (counter self'), self', [Sleep (PyInt 1)])))"

text \<open>
  The \<open>async for\<close> loop of \<open>main\<close>: call \<open>__anext__\<close>; \<open>StopAsyncIteration\<close> ends the loop
  normally, any other exception propagates, a value is printed and the loop goes on.
\<close>

function async_for :: "AsyncIterator \<Rightarrow> io list \<Rightarrow> io list \<times> exn option" where
  "async_for it out =
     (case anext it of
        (Inl e, it', evs) \<Rightarrow>
          (if e = StopAsyncIteration then (out @ evs, None) else (out @ evs, Some e))
      | (Inr item, it', evs) \<Rightarrow> async_for it' (out @ evs @ [Print item]))"
  by pat_completeness auto
termination
  by (relation "measure (\<lambda>(it, out). nat (10 - counter it))")
     (auto simp: anext_def Let_def split: if_splits)

definition asyncio02_main :: "io list \<times> exn option" where
  "asyncio02_main = async_for (aiter AsyncIterator_init) []"

text \<open>The iterator after \<open>n\<close> calls of \<open>__anext__\<close>, and the result of the \<open>k\<close>-th call on a
  fresh iterator (calls are numbered from 1).\<close>

fun anext_calls :: "nat \<Rightarrow> AsyncIterator \<Rightarrow> AsyncIterator" where
  "anext_calls 0 it = it"
| "anext_calls (Suc n) it = anext_calls n (fst (snd (anext it)))"

definition kth_anext :: "nat \<Rightarrow> (exn + int) \<times> io list" where
  "kth_anext k = (let r = anext (anext_calls (k - 1) AsyncIterator_init)
                  in (fst r, snd (snd r)))"

section \<open>assignment11/shopping02.py: data\<close>

record Product =
  product_name :: string
  checkout_time :: pynum

record Customer =
  customer_id :: int
  products :: "Product list"

subsection \<open>Python arithmetic on the cashier times\<close>

text \<open>The rational value of a number, as Python compares integers and floats.\<close>

definition num_val :: "pynum \<Rightarrow> rat" where
  "num_val x = (case x of PyInt i \<Rightarrow> of_int i | PyFloat r \<Rightarrow> r)"

text \<open>\<open>float(x)\<close>: an integer is converted to the nearest float.\<close>

definition to_float :: "(rat \<Rightarrow> rat) \<Rightarrow> pynum \<Rightarrow> rat" where
  "to_float fl x = (case x of PyInt i \<Rightarrow> fl (of_int i) | PyFloat r \<Rightarrow> r)"

text \<open>\<open>a + b\<close>: exact on two integers; otherwise both operands are converted to float and
  the sum is rounded to a float.\<close>

definition py_add :: "(rat \<Rightarrow> rat) \<Rightarrow> pynum \<Rightarrow> pynum \<Rightarrow> pynum" where
  "py_add fl a b =
     (case (a, b) of
        (PyInt i, PyInt j) \<Rightarrow> PyInt (i + j)
      | _ \<Rightarrow> PyFloat (fl (to_float fl a + to_float fl b)))"

text \<open>Rounding a rational to the nearest integer, ties to the even one.\<close>

definition round_half_even :: "rat \<Rightarrow> int" where
  "round_half_even x =
     (let f = \<lfloor>x\<rfloor>; d = x - of_int f
      in if d < 1 / 2 then f
         else if 1 / 2 < d then f + 1
         else if even f then f else f + 1)"

text \<open>\<open>round(x, ndigits)\<close> for \<open>ndigits \<ge> 0\<close>: an integer is returned unchanged; a float is
  rounded to \<open>ndigits\<close> decimal places (ties to even) and the decimal result converted
  back to the nearest float.\<close>

definition py_round :: "(rat \<Rightarrow> rat) \<Rightarrow> pynum \<Rightarrow> nat \<Rightarrow> pynum" where
  "py_round fl x ndigits =
     (case x of
        PyInt i \<Rightarrow> PyInt i
      | PyFloat r \<Rightarrow> PyFloat (fl (of_int (round_half_even (r * 10 ^ ndigits)) / 10 ^ ndigits)))"

text \<open>Python list indexing: a negative index counts from the end, an index out of range
  raises \<open>IndexError\<close>.\<close>

definition py_index :: "'a list \<Rightarrow> int \<Rightarrow> exn + nat" where
  "py_index xs i =
     (let n = int (length xs); j = (if i < 0 then n + i else i)
      in if 0 \<le> j \<and> j < n then Inr (nat j) else Inl IndexError)"

subsection \<open>The customer factory\<close>

text \<open>The float literals \<open>.4\<close> and \<open>.2\<close> are the floats nearest to 4/10 and 2/10; the checkout
  time of beef is the integer literal \<open>1\<close>.\<close>

definition all_products :: "(rat \<Rightarrow> rat) \<Rightarrow> Product list" where
  "all_products fl =
     [\<lparr>product_name = ''beef'', checkout_time = PyInt 1\<rparr>,
      \<lparr>product_name = ''banana'', checkout_time = PyFloat (fl (4 / 10))\<rparr>,
      \<lparr>product_name = ''sausage'', checkout_time = PyFloat (fl (4 / 10))\<rparr>,
      \<lparr>product_name = ''diapers'', checkout_time = PyFloat (fl (2 / 10))\<rparr>]"

definition generate_customer :: "(rat \<Rightarrow> rat) \<Rightarrow> int \<Rightarrow> Customer" where
  "generate_customer fl cid = \<lparr>customer_id = cid, products = all_products fl\<rparr>"

subsection \<open>The queue\<close>

text \<open>
  Modelled from the spec: the BoundedQueue of sections 3 and 4.1. The source imports it
  (\<open>asyncio.Queue\<close>); its code is not part of the repository. The state is the capacity,
  the buffered items in arrival order and the unfinished-work counter U. An operation that
  would suspend its caller yields \<open>None\<close>: it completes only from a state where it yields
  \<open>Some\<close>.
\<close>

record 'a Queue =
  maxsize :: nat
  items :: "'a list"
  unfinished_tasks :: int

definition Queue_init :: "nat \<Rightarrow> 'a Queue" where
  "Queue_init c = \<lparr>maxsize = c, items = [], unfinished_tasks = 0\<rparr>"

text \<open>\<open>put\<close> suspends while occupied = capacity; otherwise it appends the item at the tail
  and increments U.\<close>

definition put :: "'a Queue \<Rightarrow> 'a \<Rightarrow> 'a Queue option" where
  "put q x =
     (if length (items q) = maxsize q then None
      else Some (q\<lparr>items := items q @ [x], unfinished_tasks := unfinished_tasks q + 1\<rparr>))"

text \<open>\<open>get\<close> suspends while occupied = 0; otherwise it removes and returns the head item.\<close>

definition get :: "'a Queue \<Rightarrow> ('a \<times> 'a Queue) option" where
  "get q = (case items q of [] \<Rightarrow> None | x # xs \<Rightarrow> Some (x, q\<lparr>items := xs\<rparr>))"

text \<open>\<open>task_done\<close> (the spec's mark\_done) decrements U and fails if U would go negative.\<close>

definition task_done :: "'a Queue \<Rightarrow> exn + 'a Queue" where
  "task_done q =
     (if unfinished_tasks q - 1 < 0 then Inl ValueError
      else Inr (q\<lparr>unfinished_tasks := unfinished_tasks q - 1\<rparr>))"

text \<open>\<open>join\<close> suspends until U = 0; it returns (with no change of state) exactly from the
  states where this holds.\<close>

definition join :: "'a Queue \<Rightarrow> unit option" where
  "join q = (if unfinished_tasks q = 0 then Some () else None)"

text \<open>\<open>N\<close> successive puts and \<open>N\<close> successive gets with nothing in between: the sequence
  completes only if every single call does.\<close>

fun put_all :: "'a Queue \<Rightarrow> 'a list \<Rightarrow> 'a Queue option" where
  "put_all q [] = Some q"
| "put_all q (x # xs) = (case put q x of None \<Rightarrow> None | Some q' \<Rightarrow> put_all q' xs)"

fun get_n :: "nat \<Rightarrow> 'a Queue \<Rightarrow> ('a list \<times> 'a Queue) option" where
  "get_n 0 q = Some ([], q)"
| "get_n (Suc n) q =
     (case get q of
        None \<Rightarrow> None
      | Some (x, q') \<Rightarrow> (case get_n n q' of None \<Rightarrow> None | Some (xs, q'') \<Rightarrow> Some (x # xs, q'')))"

section \<open>assignment11/shopping02.py: the producer and the consumer as sequential functions\<close>




text \<open>\<open>cashier_times[cashier_number] += product_take_time\<close>.\<close>

definition add_time ::
  "(rat \<Rightarrow> rat) \<Rightarrow> pynum list \<Rightarrow> int \<Rightarrow> pynum \<Rightarrow> exn + pynum list" where
  "add_time fl cashier_times cashier_number product_take_time =
     (case py_index cashier_times cashier_number of
        Inl e \<Rightarrow> Inl e
      | Inr k \<Rightarrow> Inr (cashier_times[k := py_add fl (cashier_times ! k) product_take_time]))"

text \<open>The \<open>for product in customer.products\<close> loop: round the checkout time to two digits,
  sleep that long, add it to the cashier's slot. The result is the list of cashier times
  when the loop ends and the exception that ended it, if any.\<close>

fun checkout_products ::
  "(rat \<Rightarrow> rat) \<Rightarrow> int \<Rightarrow> Product list \<Rightarrow> pynum list \<Rightarrow> pynum list \<times> exn option" where
  "checkout_products fl cashier_number [] cashier_times = (cashier_times, None)"
| "checkout_products fl cashier_number (product # rest) cashier_times =
     (let product_take_time = py_round fl (checkout_time product) 2
      in case add_time fl cashier_times cashier_number product_take_time of
           Inl e \<Rightarrow> (cashier_times, Some e)
         | Inr cashier_times' \<Rightarrow> checkout_products fl cashier_number rest cashier_times')"

text \<open>
  \<open>checkout_customer\<close>, run on its own against a queue and the shared list of cashier
  times. \<open>elapsed k\<close> is the wall-clock time (a difference of two \<open>time.perf_counter()\<close>
  readings, the source's local \<open>checkout_time\<close>) measured for the \<open>k\<close>-th customer of this
  cashier. Not returning is the value
  \<open>None\<close>: with no other task running, a \<open>get\<close> on the empty queue suspends for ever. A
  result \<open>Some (Inr total_time, _, _)\<close> is a normal return, \<open>Some (Inl e, _, _)\<close> an
  exception leaving the function; both come with the queue and the cashier times as the
  function leaves them.
\<close>

partial_function (option) checkout_customer_loop ::
  "(rat \<Rightarrow> rat) \<Rightarrow> (int \<Rightarrow> pynum) \<Rightarrow> int \<Rightarrow> Customer Queue \<Rightarrow> pynum list \<Rightarrow> int \<Rightarrow> pynum
     \<Rightarrow> ((exn + pynum) \<times> Customer Queue \<times> pynum list) option" where
  "checkout_customer_loop fl elapsed cashier_number queue cashier_times customer_count total_time =
     (if True then
        (case get queue of
           None \<Rightarrow> None
         | Some (customer, queue1) \<Rightarrow>
             (let customer_count' = customer_count + 1 in
              case checkout_products fl cashier_number (products customer) cashier_times of
                (cashier_times', Some e) \<Rightarrow> Some (Inl e, queue1, cashier_times')
              | (cashier_times', None) \<Rightarrow>
                  (let customer_time = elapsed customer_count';
                       total_time' = py_add fl total_time customer_time
                   in case task_done queue1 of
                        Inl e \<Rightarrow> Some (Inl e, queue1, cashier_times')
                      | Inr queue2 \<Rightarrow>
                          checkout_customer_loop fl elapsed cashier_number queue2 cashier_times'
                            customer_count' total_time')))
      else Some (Inr total_time, queue, cashier_times))"

definition checkout_customer ::
  "(rat \<Rightarrow> rat) \<Rightarrow> (int \<Rightarrow> pynum) \<Rightarrow> Customer Queue \<Rightarrow> int \<Rightarrow> pynum list
     \<Rightarrow> ((exn + pynum) \<times> Customer Queue \<times> pynum list) option" where
  "checkout_customer fl elapsed queue cashier_number cashier_times =
     checkout_customer_loop fl elapsed cashier_number queue cashier_times 0 (PyInt 0)"

section \<open>assignment11/shopping02.py: the tasks of \<open>main\<close> as a transition system\<close>

text \<open>
  The event loop runs one task at a time and switches tasks only where a task awaits. The
  system below lets the tasks take turns statement by statement, which allows every
  interleaving the event loop can produce (and more), so that what holds of every run of
  the system holds of every run of the program. Each task is its control point together
  with its local variables.
\<close>

subsection \<open>The producer task \<open>customer_generation(customer_queue, 20)\<close>\<close>

datatype producer_pc =
    PWhile                \<comment> \<open>at the test of the \<open>while\<close> loop\<close>
  | PPut Customer         \<comment> \<open>in \<open>await queue.put(new_customer)\<close>\<close>
  | PSleep                \<comment> \<open>in \<open>await asyncio.sleep(0.001)\<close>, the count incremented\<close>
  | PReturned int         \<comment> \<open>returned \<open>customer_count\<close>\<close>

record producer =
  total_customers :: int
  p_customer_count :: int
  p_pc :: producer_pc

subsection \<open>A cashier task \<open>checkout_customer(customer_queue, i, cashier_times)\<close>\<close>

datatype cashier_pc =
    CWhile                              \<comment> \<open>at the test of \<open>while True\<close> (also: not yet started)\<close>
  | CGet                                \<comment> \<open>in \<open>await queue.get()\<close>\<close>
  | CFor Customer "Product list"        \<comment> \<open>at the head of the \<open>for\<close> loop, products still to do\<close>
  | CSleep Customer pynum "Product list"
      \<comment> \<open>in \<open>await asyncio.sleep(product_take_time)\<close>, products to do after this one\<close>
  | CReturned pynum                     \<comment> \<open>returned \<open>total_time\<close>\<close>
  | CRaised exn                         \<comment> \<open>left by an exception\<close>

record cashier =
  cashier_number :: int
  c_customer_count :: int
  total_time :: pynum
  c_pc :: cashier_pc
  must_cancel :: bool                   \<comment> \<open>\<open>cancel()\<close> was called on the task\<close>

subsection \<open>The coordinator \<open>main\<close>\<close>

datatype main_pc =
    MAwaitProducer          \<comment> \<open>in \<open>await customer_producer\<close>\<close>
  | MJoin                   \<comment> \<open>in \<open>await customer_queue.join()\<close>\<close>
  | MCancel nat             \<comment> \<open>in the loop over \<open>cashiers\<close>, at this index\<close>
  | MReport                 \<comment> \<open>the cashiers cancelled, printing the report\<close>

record system =
  customer_queue :: "Customer Queue"
  customer_producer :: producer
  cashiers :: "cashier list"
  cashier_times :: "pynum list"
  main_at :: main_pc

text \<open>\<open>main\<close> up to its first \<open>await\<close>: the queue of size 5, the producer task for 20
  customers, five zeroed cashier times, the five cashier tasks numbered \<open>range(5)\<close>.\<close>

definition new_cashier :: "int \<Rightarrow> cashier" where
  "new_cashier i = \<lparr>cashier_number = i, c_customer_count = 0, total_time = PyInt 0,
                     c_pc = CWhile, must_cancel = False\<rparr>"

definition main_init :: system where
  "main_init =
     \<lparr>customer_queue = Queue_init 5,
      customer_producer = \<lparr>total_customers = 20, p_customer_count = 0, p_pc = PWhile\<rparr>,
      cashiers = map new_cashier [0, 1, 2, 3, 4],
      cashier_times = replicate 5 (PyInt 0),
      main_at = MAwaitProducer\<rparr>"

text \<open>Is the task finished? \<open>cancel()\<close> on a finished task does nothing.\<close>

definition finished :: "cashier \<Rightarrow> bool" where
  "finished w = (case c_pc w of CReturned t \<Rightarrow> True | CRaised e \<Rightarrow> True | _ \<Rightarrow> False)"

text \<open>Where a cashier task can be suspended, so that a requested cancellation is
  delivered there: not yet started, in \<open>queue.get()\<close>, in \<open>asyncio.sleep\<close>.\<close>

definition suspended :: "cashier \<Rightarrow> bool" where
  "suspended w = (case c_pc w of CWhile \<Rightarrow> True | CGet \<Rightarrow> True | CSleep c t ps \<Rightarrow> True
                  | _ \<Rightarrow> False)"

text \<open>The steps of the system, each labelled with what happens.\<close>

datatype event =
    EProducer                  \<comment> \<open>a step inside the producer\<close>
  | EPut Customer              \<comment> \<open>the producer's \<open>put\<close> returns\<close>
  | EProducerReturn int        \<comment> \<open>the producer returns its count\<close>
  | ECashier nat               \<comment> \<open>a step inside cashier \<open>i\<close>\<close>
  | EGet nat Customer          \<comment> \<open>cashier \<open>i\<close>'s \<open>get\<close> returns a customer\<close>
  | EAddTime nat pynum         \<comment> \<open>cashier \<open>i\<close> adds to its slot of \<open>cashier_times\<close>\<close>
  | ETaskDone nat              \<comment> \<open>cashier \<open>i\<close>'s \<open>task_done\<close> returns\<close>
  | ERaise nat exn             \<comment> \<open>a call in cashier \<open>i\<close> raises\<close>
  | ECancelled nat             \<comment> \<open>\<open>CancelledError\<close> is delivered to cashier \<open>i\<close>\<close>
  | EAwaited int               \<comment> \<open>\<open>await customer_producer\<close> returns in \<open>main\<close>\<close>
  | EJoin                      \<comment> \<open>\<open>customer_queue.join()\<close> returns in \<open>main\<close>\<close>
  | ECancel nat                \<comment> \<open>\<open>main\<close> calls \<open>cancel()\<close> on cashier \<open>i\<close>\<close>
  | EReport                    \<comment> \<open>\<open>main\<close> leaves the cancel loop\<close>

inductive step :: "(rat \<Rightarrow> rat) \<Rightarrow> system \<Rightarrow> event \<Rightarrow> system \<Rightarrow> bool"
  for fl :: "rat \<Rightarrow> rat"
where
  producer_while_true:
    "\<lbrakk>p = customer_producer s; p_pc p = PWhile; p_customer_count p < total_customers p\<rbrakk>
     \<Longrightarrow> step fl s EProducer
           (s\<lparr>customer_producer := p\<lparr>p_pc := PPut (generate_customer fl (p_customer_count p))\<rparr>\<rparr>)"
| producer_while_false:
    "\<lbrakk>p = customer_producer s; p_pc p = PWhile; \<not> p_customer_count p < total_customers p\<rbrakk>
     \<Longrightarrow> step fl s (EProducerReturn (p_customer_count p))
           (s\<lparr>customer_producer := p\<lparr>p_pc := PReturned (p_customer_count p)\<rparr>\<rparr>)"
| producer_put:
    "\<lbrakk>p = customer_producer s; p_pc p = PPut new_customer;
      put (customer_queue s) new_customer = Some q'\<rbrakk>
     \<Longrightarrow> step fl s (EPut new_customer)
           (s\<lparr>customer_queue := q',
              customer_producer := p\<lparr>p_customer_count := p_customer_count p + 1, p_pc := PSleep\<rparr>\<rparr>)"
| producer_sleep:
    "\<lbrakk>p = customer_producer s; p_pc p = PSleep\<rbrakk>
     \<Longrightarrow> step fl s EProducer (s\<lparr>customer_producer := p\<lparr>p_pc := PWhile\<rparr>\<rparr>)"
| cashier_while:
    "\<lbrakk>i < length (cashiers s); w = cashiers s ! i; c_pc w = CWhile\<rbrakk>
     \<Longrightarrow> step fl s (ECashier i)
           (s\<lparr>cashiers := (cashiers s)
                [i := w\<lparr>c_pc := (if True then CGet else CReturned (total_time w))\<rparr>]\<rparr>)"
| cashier_get:
    "\<lbrakk>i < length (cashiers s); w = cashiers s ! i; c_pc w = CGet;
      get (customer_queue s) = Some (customer, q')\<rbrakk>
     \<Longrightarrow> step fl s (EGet i customer)
           (s\<lparr>customer_queue := q',
              cashiers := (cashiers s)
                [i := w\<lparr>c_customer_count := c_customer_count w + 1,
                        c_pc := CFor customer (products customer)\<rparr>]\<rparr>)"
| cashier_for_next:
    "\<lbrakk>i < length (cashiers s); w = cashiers s ! i; c_pc w = CFor customer (product # rest);
      product_take_time = py_round fl (checkout_time product) 2\<rbrakk>
     \<Longrightarrow> step fl s (ECashier i)
           (s\<lparr>cashiers := (cashiers s)
                [i := w\<lparr>c_pc := CSleep customer product_take_time rest\<rparr>]\<rparr>)"
| cashier_add_time:
    "\<lbrakk>i < length (cashiers s); w = cashiers s ! i;
      c_pc w = CSleep customer product_take_time rest;
      add_time fl (cashier_times s) (cashier_number w) product_take_time = Inr times'\<rbrakk>
     \<Longrightarrow> step fl s (EAddTime i product_take_time)
           (s\<lparr>cashier_times := times',
              cashiers := (cashiers s)[i := w\<lparr>c_pc := CFor customer rest\<rparr>]\<rparr>)"
| cashier_add_time_raises:
    "\<lbrakk>i < length (cashiers s); w = cashiers s ! i;
      c_pc w = CSleep customer product_take_time rest;
      add_time fl (cashier_times s) (cashier_number w) product_take_time = Inl e\<rbrakk>
     \<Longrightarrow> step fl s (ERaise i e) (s\<lparr>cashiers := (cashiers s)[i := w\<lparr>c_pc := CRaised e\<rparr>]\<rparr>)"
| cashier_task_done:
    "\<lbrakk>i < length (cashiers s); w = cashiers s ! i; c_pc w = CFor customer [];
      task_done (customer_queue s) = Inr q'\<rbrakk>
     \<Longrightarrow> step fl s (ETaskDone i)
           (s\<lparr>customer_queue := q',
              cashiers := (cashiers s)
                [i := w\<lparr>total_time := py_add fl (total_time w) customer_time,
                        c_pc := CWhile\<rparr>]\<rparr>)"
| cashier_task_done_raises:
    "\<lbrakk>i < length (cashiers s); w = cashiers s ! i; c_pc w = CFor customer [];
      task_done (customer_queue s) = Inl e\<rbrakk>
     \<Longrightarrow> step fl s (ERaise i e)
           (s\<lparr>cashiers := (cashiers s)
                [i := w\<lparr>total_time := py_add fl (total_time w) customer_time,
                        c_pc := CRaised e\<rparr>]\<rparr>)"
| cashier_cancelled:
    "\<lbrakk>i < length (cashiers s); w = cashiers s ! i; must_cancel w; suspended w\<rbrakk>
     \<Longrightarrow> step fl s (ECancelled i)
           (s\<lparr>cashiers := (cashiers s)[i := w\<lparr>c_pc := CRaised CancelledError\<rparr>]\<rparr>)"
| main_awaited:
    "\<lbrakk>main_at s = MAwaitProducer; p_pc (customer_producer s) = PReturned r\<rbrakk>
     \<Longrightarrow> step fl s (EAwaited r) (s\<lparr>main_at := MJoin\<rparr>)"
| main_join:
    "\<lbrakk>main_at s = MJoin; join (customer_queue s) = Some ()\<rbrakk>
     \<Longrightarrow> step fl s EJoin (s\<lparr>main_at := MCancel 0\<rparr>)"
| main_cancel:
    "\<lbrakk>main_at s = MCancel i; i < length (cashiers s); w = cashiers s ! i\<rbrakk>
     \<Longrightarrow> step fl s (ECancel i)
           (s\<lparr>cashiers := (cashiers s)
                [i := (if finished w then w else w\<lparr>must_cancel := True\<rparr>)],
              main_at := MCancel (i + 1)\<rparr>)"
| main_report:
    "\<lbrakk>main_at s = MCancel i; \<not> i < length (cashiers s)\<rbrakk>
     \<Longrightarrow> step fl s EReport (s\<lparr>main_at := MReport\<rparr>)"

text \<open>A run: the events from one state to another, in order.\<close>

inductive run :: "(rat \<Rightarrow> rat) \<Rightarrow> system \<Rightarrow> event list \<Rightarrow> system \<Rightarrow> bool"
  for fl :: "rat \<Rightarrow> rat"
where
  run_nil: "run fl s [] s"
| run_snoc: "\<lbrakk>run fl s tr m; step fl m e t\<rbrakk> \<Longrightarrow> run fl s (tr @ [e]) t"



subsection \<open>What the properties of the runs are stated with\<close>

text \<open>A cashier holds a customer from the return of its \<open>get\<close> until its \<open>task_done\<close>:
  these are the control points inside the \<open>for\<close> loop.\<close>

definition holding :: "cashier \<Rightarrow> bool" where
  "holding w = (case c_pc w of CFor c ps \<Rightarrow> True | CSleep c t ps \<Rightarrow> True | _ \<Rightarrow> False)"

text \<open>The number of cashiers holding a customer.\<close>

definition holders :: "system \<Rightarrow> nat" where
  "holders s = length (filter holding (cashiers s))"

text \<open>\<open>main\<close> has come back from \<open>customer_queue.join()\<close>.\<close>

definition past_join :: "system \<Rightarrow> bool" where
  "past_join s = (case main_at s of MAwaitProducer \<Rightarrow> False | MJoin \<Rightarrow> False | _ \<Rightarrow> True)"

text \<open>The invariants of the system: the shape of the shared data, the producer's
  counters, the meaning of U, what \<open>main\<close> has waited for, how a cashier can have ended.\<close>

definition inv_shape :: "system \<Rightarrow> bool" where
  "inv_shape s =
     (length (cashiers s) = 5 \<and> length (cashier_times s) = 5 \<and>
      (\<forall>i<5. cashier_number (cashiers s ! i) = int i) \<and>
      maxsize (customer_queue s) = 5 \<and> length (items (customer_queue s)) \<le> 5)"

definition inv_producer :: "system \<Rightarrow> bool" where
  "inv_producer s =
     (let p = customer_producer s in
      total_customers p = 20 \<and> 0 \<le> p_customer_count p \<and> p_customer_count p \<le> 20 \<and>
      (\<forall>r. p_pc p = PReturned r \<longrightarrow> r = 20 \<and> p_customer_count p = 20) \<and>
      (\<forall>c. p_pc p = PPut c \<longrightarrow> p_customer_count p < 20) \<and>
      (main_at s \<noteq> MAwaitProducer \<longrightarrow> (\<exists>r. p_pc p = PReturned r)))"

definition inv_unfinished :: "system \<Rightarrow> bool" where
  "inv_unfinished s =
     (unfinished_tasks (customer_queue s) =
        int (length (items (customer_queue s))) + int (holders s))"

definition inv_main :: "system \<Rightarrow> bool" where
  "inv_main s =
     ((past_join s \<longrightarrow> unfinished_tasks (customer_queue s) = 0) \<and>
      (\<forall>i < length (cashiers s). must_cancel (cashiers s ! i) \<longrightarrow> past_join s))"

definition inv_cashier :: "system \<Rightarrow> bool" where
  "inv_cashier s =
     (\<forall>i < length (cashiers s).
        (\<forall>t. c_pc (cashiers s ! i) \<noteq> CReturned t) \<and>
        (\<forall>e. c_pc (cashiers s ! i) = CRaised e \<longrightarrow> e = CancelledError \<and> past_join s))"

definition invariant :: "system \<Rightarrow> bool" where
  "invariant s = (inv_shape s \<and> inv_producer s \<and> inv_unfinished s \<and> inv_main s \<and> inv_cashier s)"

text \<open>Counting the events of a run: the puts and the \<open>task_done\<close> calls that returned,
  the customers a cashier took and marked done, the customers put in line in order.\<close>

fun is_put :: "event \<Rightarrow> bool" where
  "is_put (EPut c) = True"
| "is_put e = False"

fun is_task_done :: "event \<Rightarrow> bool" where
  "is_task_done (ETaskDone i) = True"
| "is_task_done e = False"

fun is_get_of :: "nat \<Rightarrow> event \<Rightarrow> bool" where
  "is_get_of i (EGet j c) = (j = i)"
| "is_get_of i e = False"

fun is_raise :: "event \<Rightarrow> bool" where
  "is_raise (ERaise i e) = True"
| "is_raise e = False"

fun is_awaited :: "event \<Rightarrow> bool" where
  "is_awaited (EAwaited r) = True"
| "is_awaited e = False"

fun put_of :: "event \<Rightarrow> Customer list" where
  "put_of (EPut c) = [c]"
| "put_of e = []"

definition n_put :: "event list \<Rightarrow> nat" where
  "n_put tr = length (filter is_put tr)"

definition n_task_done :: "event list \<Rightarrow> nat" where
  "n_task_done tr = length (filter is_task_done tr)"

definition gets_of :: "nat \<Rightarrow> event list \<Rightarrow> nat" where
  "gets_of i tr = length (filter (is_get_of i) tr)"

definition dones_of :: "nat \<Rightarrow> event list \<Rightarrow> nat" where
  "dones_of i tr = length (filter (\<lambda>e. e = ETaskDone i) tr)"

definition customers_put :: "event list \<Rightarrow> Customer list" where
  "customers_put tr = concat (map put_of tr)"

text \<open>What a run has recorded, related to the state it has reached.\<close>

definition tr_counts :: "event list \<Rightarrow> system \<Rightarrow> bool" where
  "tr_counts tr s =
     (int (n_put tr) = p_customer_count (customer_producer s) \<and>
      unfinished_tasks (customer_queue s) = int (n_put tr) - int (n_task_done tr) \<and>
      (\<forall>i < length (cashiers s).
         gets_of i tr = dones_of i tr + (if holding (cashiers s ! i) then 1 else 0)))"

definition tr_events :: "event list \<Rightarrow> system \<Rightarrow> bool" where
  "tr_events tr s =
     ((\<forall>e \<in> set tr. \<not> is_raise e) \<and>
      (EJoin \<in> set tr) = past_join s \<and>
      (\<exists>e \<in> set tr. is_awaited e) = (main_at s \<noteq> MAwaitProducer) \<and>
      (EProducerReturn 20 \<in> set tr) = (\<exists>r. p_pc (customer_producer s) = PReturned r) \<and>
      (\<forall>i < length (cashiers s).
          (must_cancel (cashiers s ! i) \<longrightarrow> ECancel i \<in> set tr) \<and>
          (ECancel i \<in> set tr \<longrightarrow> EJoin \<in> set tr) \<and>
          (ECancelled i \<in> set tr \<longrightarrow> ECancel i \<in> set tr)))"

definition tr_puts :: "(rat \<Rightarrow> rat) \<Rightarrow> event list \<Rightarrow> system \<Rightarrow> bool" where
  "tr_puts fl tr s =
     (customers_put tr =
        map (generate_customer fl) [0 .. p_customer_count (customer_producer s) - 1] \<and>
      (\<forall>c. p_pc (customer_producer s) = PPut c \<longrightarrow>
           c = generate_customer fl (p_customer_count (customer_producer s))))"

definition inv_trace :: "(rat \<Rightarrow> rat) \<Rightarrow> event list \<Rightarrow> system \<Rightarrow> bool" where
  "inv_trace fl tr s = (tr_counts tr s \<and> tr_events tr s \<and> tr_puts fl tr s)"

text \<open>The cashier an event is a step of; \<open>None\<close> for a step of the producer or of \<open>main\<close>.\<close>

fun cashier_of :: "event \<Rightarrow> nat option" where
  "cashier_of (ECashier i) = Some i"
| "cashier_of (EGet i c) = Some i"
| "cashier_of (EAddTime i t) = Some i"
| "cashier_of (ETaskDone i) = Some i"
| "cashier_of (ERaise i e) = Some i"
| "cashier_of (ECancelled i) = Some i"
| "cashier_of e = None"

text \<open>The additions cashier \<open>i\<close> has made to its slot.\<close>

fun is_add_of :: "nat \<Rightarrow> event \<Rightarrow> bool" where
  "is_add_of i (EAddTime j t) = (j = i)"
| "is_add_of i e = False"

definition adds_of :: "nat \<Rightarrow> event list \<Rightarrow> nat" where
  "adds_of i tr = length (filter (is_add_of i) tr)"

text \<open>The rounded checkout time of the \<open>k\<close>-th product of the catalog.\<close>

definition take_time :: "(rat \<Rightarrow> rat) \<Rightarrow> nat \<Rightarrow> pynum" where
  "take_time fl k = py_round fl (checkout_time (all_products fl ! k)) 2"

text \<open>How many products of its customer a cashier has checked out, by its control point;
  and that the customer and the products still to do come from the catalog.\<close>

fun products_done :: "cashier_pc \<Rightarrow> nat" where
  "products_done (CFor c ps) = length (products c) - length ps"
| "products_done (CSleep c t ps) = length (products c) - length ps - 1"
| "products_done pc = 0"

fun pc_products_ok :: "(rat \<Rightarrow> rat) \<Rightarrow> cashier_pc \<Rightarrow> bool" where
  "pc_products_ok fl (CFor c ps) =
     (products c = all_products fl \<and> (\<exists>k\<le>4. ps = drop k (all_products fl)))"
| "pc_products_ok fl (CSleep c t ps) =
     (products c = all_products fl \<and>
      (\<exists>k<4. ps = drop (Suc k) (all_products fl) \<and> t = take_time fl k))"
| "pc_products_ok fl pc = True"

definition inv_products :: "(rat \<Rightarrow> rat) \<Rightarrow> system \<Rightarrow> bool" where
  "inv_products fl s =
     ((\<forall>c \<in> set (items (customer_queue s)). products c = all_products fl) \<and>
      (\<forall>c. p_pc (customer_producer s) = PPut c \<longrightarrow> products c = all_products fl) \<and>
      (\<forall>i < length (cashiers s). pc_products_ok fl (c_pc (cashiers s ! i))))"

text \<open>Each customer marked done had all four products checked out; a task that has ended
  was cancelled.\<close>

definition tr_adds :: "event list \<Rightarrow> system \<Rightarrow> bool" where
  "tr_adds tr s =
     (\<forall>i < length (cashiers s).
        adds_of i tr = 4 * dones_of i tr + products_done (c_pc (cashiers s ! i)))"

definition tr_ended :: "event list \<Rightarrow> system \<Rightarrow> bool" where
  "tr_ended tr s =
     (\<forall>i < length (cashiers s). finished (cashiers s ! i) \<longrightarrow> ECancelled i \<in> set tr)"

text \<open>
  What the properties of the cashier times use of floating-point rounding: rounding to the
  nearest float is monotone, leaves 0 and 1 unchanged and leaves a float unchanged. The
  slot of a cashier is a float that is not negative, or still the integer it started with
  (0 before the first product of the first customer, 1 after it).
\<close>

definition float_rounding :: "(rat \<Rightarrow> rat) \<Rightarrow> bool" where
  "float_rounding fl = (mono fl \<and> fl 0 = 0 \<and> fl 1 = 1 \<and> (\<forall>x. fl (fl x) = fl x))"

definition is_float :: "(rat \<Rightarrow> rat) \<Rightarrow> pynum \<Rightarrow> bool" where
  "is_float fl v = (case v of PyInt i \<Rightarrow> False | PyFloat r \<Rightarrow> fl r = r \<and> 0 \<le> r)"

definition slot_ok :: "(rat \<Rightarrow> rat) \<Rightarrow> nat \<Rightarrow> pynum \<Rightarrow> bool" where
  "slot_ok fl k v = (is_float fl v \<or> (k = 0 \<and> v = PyInt 0) \<or> (k = 1 \<and> v = PyInt 1))"

definition inv_slots :: "(rat \<Rightarrow> rat) \<Rightarrow> system \<Rightarrow> bool" where
  "inv_slots fl s =
     (\<forall>i < length (cashiers s).
        slot_ok fl (products_done (c_pc (cashiers s ! i))) (cashier_times s ! i))"

definition tr_take :: "(rat \<Rightarrow> rat) \<Rightarrow> event list \<Rightarrow> bool" where
  "tr_take fl tr = (\<forall>i x. EAddTime i x \<in> set tr \<longrightarrow> (\<exists>k<4. x = take_time fl k))"

subsection \<open>A scheduler\<close>

text \<open>
  The step a task takes when the scheduler picks it, as a function: the event and the next
  state, or \<open>None\<close> when the task cannot move (it is suspended or has ended). A cashier
  with a cancellation pending at a point of suspension receives it there; the wall-clock
  time a cashier measures for a customer is taken as 0. Running a list of picks gives one
  run of the system.
\<close>

datatype actor = Producer | Cashier nat | Main

definition next_step :: "(rat \<Rightarrow> rat) \<Rightarrow> system \<Rightarrow> actor \<Rightarrow> (event \<times> system) option" where
  "next_step fl s a =
     (case a of
        Producer \<Rightarrow>
          (let p = customer_producer s in
           case p_pc p of
             PWhile \<Rightarrow>
               if p_customer_count p < total_customers p
               then Some (EProducer,
                      s\<lparr>customer_producer :=
                          p\<lparr>p_pc := PPut (generate_customer fl (p_customer_count p))\<rparr>\<rparr>)
               else Some (EProducerReturn (p_customer_count p),
                      s\<lparr>customer_producer := p\<lparr>p_pc := PReturned (p_customer_count p)\<rparr>\<rparr>)
           | PPut new_customer \<Rightarrow>
               (case put (customer_queue s) new_customer of
                  None \<Rightarrow> None
                | Some q' \<Rightarrow>
                    Some (EPut new_customer,
                      s\<lparr>customer_queue := q',
                        customer_producer :=
                          p\<lparr>p_customer_count := p_customer_count p + 1, p_pc := PSleep\<rparr>\<rparr>))
           | PSleep \<Rightarrow> Some (EProducer, s\<lparr>customer_producer := p\<lparr>p_pc := PWhile\<rparr>\<rparr>)
           | PReturned r \<Rightarrow> None)
      | Cashier i \<Rightarrow>
          (if \<not> i < length (cashiers s) then None
           else let w = cashiers s ! i in
             if must_cancel w \<and> suspended w
             then Some (ECancelled i,
                    s\<lparr>cashiers := (cashiers s)[i := w\<lparr>c_pc := CRaised CancelledError\<rparr>]\<rparr>)
             else case c_pc w of
               CWhile \<Rightarrow>
                 Some (ECashier i,
                   s\<lparr>cashiers := (cashiers s)
                        [i := w\<lparr>c_pc := (if True then CGet else CReturned (total_time w))\<rparr>]\<rparr>)
             | CGet \<Rightarrow>
                 (case get (customer_queue s) of
                    None \<Rightarrow> None
                  | Some (customer, q') \<Rightarrow>
                      Some (EGet i customer,
                        s\<lparr>customer_queue := q',
                          cashiers := (cashiers s)
                            [i := w\<lparr>c_customer_count := c_customer_count w + 1,
                                    c_pc := CFor customer (products customer)\<rparr>]\<rparr>))
             | CFor customer [] \<Rightarrow>
                 (case task_done (customer_queue s) of
                    Inr q' \<Rightarrow>
                      Some (ETaskDone i,
                        s\<lparr>customer_queue := q',
                          cashiers := (cashiers s)
                            [i := w\<lparr>total_time := py_add fl (total_time w) (PyInt 0),
                                    c_pc := CWhile\<rparr>]\<rparr>)
                  | Inl e \<Rightarrow>
                      Some (ERaise i e,
                        s\<lparr>cashiers := (cashiers s)
                            [i := w\<lparr>total_time := py_add fl (total_time w) (PyInt 0),
                                    c_pc := CRaised e\<rparr>]\<rparr>))
             | CFor customer (product # rest) \<Rightarrow>
                 Some (ECashier i,
                   s\<lparr>cashiers := (cashiers s)
                        [i := w\<lparr>c_pc := CSleep customer
                                   (py_round fl (checkout_time product) 2) rest\<rparr>]\<rparr>)
             | CSleep customer product_take_time rest \<Rightarrow>
                 (case add_time fl (cashier_times s) (cashier_number w) product_take_time of
                    Inr times' \<Rightarrow>
                      Some (EAddTime i product_take_time,
                        s\<lparr>cashier_times := times',
                          cashiers := (cashiers s)[i := w\<lparr>c_pc := CFor customer rest\<rparr>]\<rparr>)
                  | Inl e \<Rightarrow>
                      Some (ERaise i e,
                        s\<lparr>cashiers := (cashiers s)[i := w\<lparr>c_pc := CRaised e\<rparr>]\<rparr>))
             | CReturned t \<Rightarrow> None
             | CRaised e \<Rightarrow> None)
      | Main \<Rightarrow>
          (case main_at s of
             MAwaitProducer \<Rightarrow>
               (case p_pc (customer_producer s) of
                  PReturned r \<Rightarrow> Some (EAwaited r, s\<lparr>main_at := MJoin\<rparr>)
                | _ \<Rightarrow> None)
           | MJoin \<Rightarrow>
               (case join (customer_queue s) of
                  Some u \<Rightarrow> Some (EJoin, s\<lparr>main_at := MCancel 0\<rparr>)
                | None \<Rightarrow> None)
           | MCancel i \<Rightarrow>
               if i < length (cashiers s)
               then let w = cashiers s ! i in
                 Some (ECancel i,
                   s\<lparr>cashiers := (cashiers s)
                        [i := (if finished w then w else w\<lparr>must_cancel := True\<rparr>)],
                     main_at := MCancel (i + 1)\<rparr>)
               else Some (EReport, s\<lparr>main_at := MReport\<rparr>)
           | MReport \<Rightarrow> None))"

fun exec :: "(rat \<Rightarrow> rat) \<Rightarrow> system \<Rightarrow> actor list \<Rightarrow> (event list \<times> system) option" where
  "exec fl s [] = Some ([], s)"
| "exec fl s (a # as) =
     (case next_step fl s a of
        None \<Rightarrow> None
      | Some (e, m) \<Rightarrow>
          (case exec fl m as of None \<Rightarrow> None | Some (tr, t) \<Rightarrow> Some (e # tr, t)))"

text \<open>One schedule of the whole program: the producer puts a customer in line, one
  cashier checks the customer out; twenty times, the cashiers taking turns. Then the
  producer returns and \<open>main\<close> goes on.\<close>

definition one_customer :: "nat \<Rightarrow> actor list" where
  "one_customer i = replicate 3 Producer @ replicate 11 (Cashier i)"

definition all_customers :: "actor list" where
  "all_customers = concat (map one_customer (concat (replicate 4 [0, 1, 2, 3, 4])))"

definition until_join :: "actor list" where
  "until_join = all_customers @ [Producer, Main, Main]"

text \<open>The same schedule up to the first \<open>cancel()\<close> of \<open>main\<close>.\<close>

definition until_cancel :: "actor list" where
  "until_cancel = all_customers @ [Producer, Main, Main, Main]"

text \<open>The schedule to the end: \<open>main\<close> cancels the other cashiers and leaves the loop,
  then each cashier is resumed and receives the cancellation.\<close>

definition whole_run :: "actor list" where
  "whole_run = until_cancel @ replicate 5 Main @ map Cashier [0, 1, 2, 3, 4]"

fun is_cancel_of :: "nat \<Rightarrow> event \<Rightarrow> bool" where
  "is_cancel_of i (ECancel j) = (j = i)"
| "is_cancel_of i e = False"

fun is_join :: "event \<Rightarrow> bool" where
  "is_join EJoin = True"
| "is_join e = False"

section \<open>Properties of the asynchronous iterator\<close>

lemma counter_anext_calls:
  "counter (anext_calls n it) =
     (if counter it \<ge> 10 then counter it else min 10 (counter it + int n))"
  by (induction n arbitrary: it) (auto simp: anext_def Let_def)

lemma async_for_from:
  "counter it \<le> 10 \<Longrightarrow>
   async_for it out =
     (out @ concat (map (\<lambda>i. [Sleep (PyInt 1), Print i]) [counter it + 1 .. 10]), None)"
proof (induction it out rule: async_for.induct)
  case (1 it out)
  show ?case
  proof (cases "counter it \<ge> 10")
    case True
    then show ?thesis by (simp add: anext_def)
  next
    case False
    let ?it' = "it\<lparr>counter := counter it + 1\<rparr>"
    have a: "anext it = (Inr (counter it + 1), ?it', [Sleep (PyInt 1)])"
      using False by (simp add: anext_def Let_def)
    have ih: "async_for ?it' (out @ [Sleep (PyInt 1)] @ [Print (counter it + 1)]) =
      ((out @ [Sleep (PyInt 1)] @ [Print (counter it + 1)]) @
        concat (map (\<lambda>i. [Sleep (PyInt 1), Print i]) [counter ?it' + 1 .. 10]), None)"
      using "1.IH"[OF a[symmetric] refl refl] False by simp
    have u: "[counter it + 1 .. 10] = (counter it + 1) # [counter it + 1 + 1 .. 10]"
      using False by (simp add: upto_rec1)
    show ?thesis
      using ih by (subst async_for.simps) (simp add: a u del: async_for.simps)
  qed
qed

text \<open>
  C9. The iterator is a bounded generator with a fixed delay: on a fresh iterator the
  \<open>k\<close>-th call of \<open>__anext__\<close>, for \<open>1 \<le> k \<le> 10\<close>, sleeps one second and returns \<open>k\<close>; every
  later call, and every call on an iterator whose counter has reached 10, raises
  \<open>StopAsyncIteration\<close> without sleeping; the \<open>async for\<close> loop of \<open>main\<close> prints
  1, 2, ..., 10 in order, each after a sleep of one second, and then ends normally.
\<close>

theorem anext_bounded_generator:
  "(\<forall>k. 1 \<le> k \<and> k \<le> 10 \<longrightarrow> kth_anext k = (Inr (int k), [Sleep (PyInt 1)])) \<and>
   (\<forall>k. 10 < k \<longrightarrow> kth_anext k = (Inl StopAsyncIteration, [])) \<and>
   (\<forall>it::AsyncIterator. 10 \<le> counter it \<longrightarrow> fst (anext it) = Inl StopAsyncIteration) \<and>
   asyncio02_main = (concat (map (\<lambda>i. [Sleep (PyInt 1), Print i]) [1 .. 10]), None)"
proof (intro conjI allI impI)
  fix k :: nat assume "1 \<le> k \<and> k \<le> 10"
  then show "kth_anext k = (Inr (int k), [Sleep (PyInt 1)])"
    by (simp add: kth_anext_def Let_def anext_def counter_anext_calls AsyncIterator_init_def)
next
  fix k :: nat assume "10 < k"
  then show "kth_anext k = (Inl StopAsyncIteration, [])"
    by (simp add: kth_anext_def Let_def anext_def counter_anext_calls AsyncIterator_init_def)
next
  fix it :: AsyncIterator assume "10 \<le> counter it"
  then show "fst (anext it) = Inl StopAsyncIteration" by (simp add: anext_def)
next
  show "asyncio02_main = (concat (map (\<lambda>i. [Sleep (PyInt 1), Print i]) [1 .. 10]), None)"
    using async_for_from[of AsyncIterator_init "[]"]
    by (simp add: asyncio02_main_def aiter_def AsyncIterator_init_def)
qed

theorem anext_bounded_generator_witness:
  "kth_anext 3 = (Inr 3, [Sleep (PyInt 1)]) \<and> kth_anext 11 = (Inl StopAsyncIteration, []) \<and>
   fst (anext \<lparr>counter = 10\<rparr>) = Inl StopAsyncIteration \<and>
   filter (\<lambda>e. e \<noteq> Sleep (PyInt 1)) (fst asyncio02_main) =
     [Print 1, Print 2, Print 3, Print 4, Print 5, Print 6, Print 7, Print 8, Print 9, Print 10]"
proof -
  note t = anext_bounded_generator
  have 1: "kth_anext 3 = (Inr 3, [Sleep (PyInt 1)])"
    using t[THEN conjunct1, rule_format, of 3] by simp
  have 2: "kth_anext 11 = (Inl StopAsyncIteration, [])"
    using t[THEN conjunct2, THEN conjunct1, rule_format, of 11] by simp
  have 3: "fst (anext \<lparr>counter = 10\<rparr>) = Inl StopAsyncIteration"
    using t[THEN conjunct2, THEN conjunct2, THEN conjunct1, rule_format,
            of "\<lparr>counter = 10\<rparr>"] by simp
  have 4: "asyncio02_main = (concat (map (\<lambda>i. [Sleep (PyInt 1), Print i]) [1 .. 10]), None)"
    using t by blast
  show ?thesis unfolding 4 using 1 2 3 by (simp add: upto_rec1)
qed

section \<open>Properties of the queue\<close>

lemma put_all_items:
  "put_all q xs = Some q' \<Longrightarrow>
   items q' = items q @ xs \<and> maxsize q' = maxsize q \<and>
   unfinished_tasks q' = unfinished_tasks q + int (length xs)"
  by (induction xs arbitrary: q) (auto simp: put_def split: option.splits if_splits)

lemma get_n_items:
  "items q = xs @ ys \<Longrightarrow> get_n (length xs) q = Some (xs, q\<lparr>items := ys\<rparr>)"
  by (induction xs arbitrary: q) (auto simp: get_def split: option.splits list.splits)

text \<open>With nothing in between, \<open>N\<close> puts into the empty queue all return exactly when
  \<open>N\<close> is at most the capacity: a further \<open>put\<close> stays suspended.\<close>

lemma put_all_Some:
  "length (items q) + length xs \<le> maxsize q \<Longrightarrow> \<exists>q'. put_all q xs = Some q'"
  by (induction xs arbitrary: q) (auto simp: put_def split: option.splits)

lemma put_all_None:
  "length (items q) \<le> maxsize q \<Longrightarrow> maxsize q < length (items q) + length xs \<Longrightarrow>
   put_all q xs = None"
  by (induction xs arbitrary: q) (auto simp: put_def split: option.splits)

lemma put_all_init_iff: "(put_all (Queue_init c) xs \<noteq> None) = (length xs \<le> c)"
  using put_all_Some[of "Queue_init c" xs] put_all_None[of "Queue_init c" xs]
  by (cases "length xs \<le> c") (auto simp: Queue_init_def)

text \<open>
  C4. FIFO delivery: when \<open>N\<close> puts on an empty queue have returned and \<open>N\<close> gets follow
  with nothing in between, the gets all return, and their results are the items put, in
  the order they were put; the queue is empty again.
\<close>

theorem queue_fifo:
  "items q0 = [] \<Longrightarrow> put_all q0 xs = Some q \<Longrightarrow>
   get_n (length xs) q = Some (xs, q\<lparr>items := []\<rparr>)"
  using put_all_items[of q0 xs q] get_n_items[of q xs "[]"] by simp

theorem queue_fifo_witness:
  "items (Queue_init 5 :: nat Queue) = [] \<and>
   put_all (Queue_init 5) [7, 8, 9 :: nat] =
     Some \<lparr>maxsize = 5, items = [7, 8, 9], unfinished_tasks = 3\<rparr> \<and>
   get_n (length [7, 8, 9 :: nat])
     \<lparr>maxsize = 5, items = [7, 8, 9 :: nat], unfinished_tasks = 3\<rparr> =
     Some ([7, 8, 9], \<lparr>maxsize = 5, items = [], unfinished_tasks = 3\<rparr>)"
proof -
  have a: "items (Queue_init 5 :: nat Queue) = []" by (simp add: Queue_init_def)
  have b: "put_all (Queue_init 5) [7, 8, 9 :: nat] =
             Some \<lparr>maxsize = 5, items = [7, 8, 9], unfinished_tasks = 3\<rparr>"
    by (simp add: Queue_init_def put_def)
  show ?thesis using a b queue_fifo[OF a b] by simp
qed

section \<open>Properties of the producer run on its own\<close>



section \<open>Properties of the consumer run on its own\<close>

lemma checkout_customer_loop_result:
  assumes "checkout_customer_loop fl elapsed n q ts k tot = Some y"
  shows "isl (fst y)"
  using assms
proof (rule checkout_customer_loop.raw_induct
         [where P = "\<lambda>fl elapsed n q ts k tot y. isl (fst y)", rotated -1], goal_cases)
  case (1 f fl elapsed n q ts k tot y)
  from 1(2) 1(1) show ?case
    by (auto split: option.splits prod.splits sum.splits simp: Let_def)
qed

text \<open>The three ways a call can go: it stays in \<open>get\<close> on the empty queue (at once, or
  after the customers in line are checked out), or an exception leaves it.\<close>

lemma checkout_customer_empty_queue:
  "checkout_customer fl elapsed (Queue_init 5) 0 [PyInt 0] = None"
  unfolding checkout_customer_def
  by (subst checkout_customer_loop.simps) (simp add: get_def Queue_init_def)

lemma checkout_customer_one_customer:
  "checkout_customer (\<lambda>x. x) elapsed
     \<lparr>maxsize = 5, items = [generate_customer (\<lambda>x. x) 0], unfinished_tasks = 1\<rparr>
     0 [PyInt 0] = None"
  unfolding checkout_customer_def
  apply (subst checkout_customer_loop.simps)
  apply (simp add: get_def generate_customer_def all_products_def add_time_def py_index_def
        py_add_def py_round_def to_float_def round_half_even_def task_done_def Let_def)
  apply (subst checkout_customer_loop.simps)
  apply (simp add: get_def)
  done

lemma checkout_customer_value_error:
  "checkout_customer (\<lambda>x. x) elapsed
     \<lparr>maxsize = 5, items = [generate_customer (\<lambda>x. x) 0], unfinished_tasks = 0\<rparr>
     0 [PyInt 0] =
   Some (Inl ValueError, \<lparr>maxsize = 5, items = [], unfinished_tasks = 0\<rparr>, [PyFloat 2])"
  unfolding checkout_customer_def
  by (subst checkout_customer_loop.simps)
     (simp add: get_def generate_customer_def all_products_def add_time_def py_index_def
        py_add_def py_round_def to_float_def round_half_even_def task_done_def Let_def)

lemma checkout_customer_index_error:
  "checkout_customer (\<lambda>x. x) elapsed
     \<lparr>maxsize = 5, items = [generate_customer (\<lambda>x. x) 0], unfinished_tasks = 1\<rparr>
     1 [PyInt 0] =
   Some (Inl IndexError, \<lparr>maxsize = 5, items = [], unfinished_tasks = 1\<rparr>, [PyInt 0])"
  unfolding checkout_customer_def
  by (subst checkout_customer_loop.simps)
     (simp add: get_def generate_customer_def all_products_def add_time_def py_index_def
        py_add_def py_round_def to_float_def round_half_even_def task_done_def Let_def)

section \<open>Invariants of the transition system\<close>

lemma filter_update_count:
  "i < length xs \<Longrightarrow>
   int (length (filter P (xs[i := y]))) =
     int (length (filter P xs)) - (if P (xs ! i) then 1 else 0) + (if P y then 1 else 0)"
proof (induction xs arbitrary: i)
  case Nil
  then show ?case by simp
next
  case (Cons a xs)
  show ?case
  proof (cases i)
    case 0
    then show ?thesis by simp
  next
    case (Suc j)
    then show ?thesis using Cons.IH[of j] Cons.prems by (auto split: if_splits)
  qed
qed

lemma holders_update:
  "i < length (cashiers s) \<Longrightarrow>
   int (holders (s\<lparr>cashiers := (cashiers s)[i := w]\<rparr>)) =
     int (holders s) - (if holding (cashiers s ! i) then 1 else 0) + (if holding w then 1 else 0)"
  by (simp add: holders_def filter_update_count)

lemma holders_other [simp]:
  "holders (s\<lparr>customer_queue := q\<rparr>) = holders s"
  "holders (s\<lparr>customer_producer := p\<rparr>) = holders s"
  "holders (s\<lparr>cashier_times := ts\<rparr>) = holders s"
  "holders (s\<lparr>main_at := m\<rparr>) = holders s"
  by (simp_all add: holders_def)

lemma past_join_other [simp]:
  "past_join (s\<lparr>customer_queue := q\<rparr>) = past_join s"
  "past_join (s\<lparr>customer_producer := p\<rparr>) = past_join s"
  "past_join (s\<lparr>cashier_times := ts\<rparr>) = past_join s"
  "past_join (s\<lparr>cashiers := ws\<rparr>) = past_join s"
  by (simp_all add: past_join_def)

lemma add_time_length:
  "add_time fl ts n t = Inr ts' \<Longrightarrow> length ts' = length ts"
  by (auto simp: add_time_def split: sum.splits)

lemma step_inv_shape: "step fl s e t \<Longrightarrow> inv_shape s \<Longrightarrow> inv_shape t"
  by (induction rule: step.induct)
     (auto simp: inv_shape_def nth_list_update put_def get_def task_done_def
           dest: add_time_length split: if_splits list.splits)

lemma step_inv_producer: "step fl s e t \<Longrightarrow> inv_producer s \<Longrightarrow> inv_producer t"
  by (induction rule: step.induct) (auto simp: inv_producer_def Let_def)

lemma holding_holders:
  "i < length (cashiers s) \<Longrightarrow> holding (cashiers s ! i) \<Longrightarrow> 1 \<le> holders s"
proof -
  assume a: "i < length (cashiers s)" "holding (cashiers s ! i)"
  then have "cashiers s ! i \<in> set (filter holding (cashiers s))" by simp
  then have "filter holding (cashiers s) \<noteq> []" by (metis empty_iff empty_set)
  then show ?thesis by (simp add: holders_def Suc_le_eq)
qed

text \<open>With a cashier holding a customer, U is positive.\<close>

lemma holding_unfinished:
  "inv_unfinished s \<Longrightarrow> i < length (cashiers s) \<Longrightarrow> holding (cashiers s ! i) \<Longrightarrow>
   1 \<le> unfinished_tasks (customer_queue s)"
  using holding_holders[of i s] by (simp add: inv_unfinished_def)

lemma py_index_ok:
  "inv_shape s \<Longrightarrow> i < length (cashiers s) \<Longrightarrow>
   py_index (cashier_times s) (cashier_number (cashiers s ! i)) = Inr i"
  by (simp add: inv_shape_def py_index_def)

lemma add_time_ok:
  "inv_shape s \<Longrightarrow> i < length (cashiers s) \<Longrightarrow>
   add_time fl (cashier_times s) (cashier_number (cashiers s ! i)) t =
     Inr ((cashier_times s)[i := py_add fl (cashier_times s ! i) t])"
  by (simp add: add_time_def py_index_ok)

lemma task_done_ok:
  "inv_unfinished s \<Longrightarrow> i < length (cashiers s) \<Longrightarrow> holding (cashiers s ! i) \<Longrightarrow>
   task_done (customer_queue s) =
     Inr ((customer_queue s)\<lparr>unfinished_tasks := unfinished_tasks (customer_queue s) - 1\<rparr>)"
  using holding_unfinished[of s i] by (simp add: task_done_def)

lemma not_cancelled_while_holding:
  "inv_unfinished s \<Longrightarrow> inv_main s \<Longrightarrow> i < length (cashiers s) \<Longrightarrow>
   holding (cashiers s ! i) \<Longrightarrow> \<not> must_cancel (cashiers s ! i) \<and> \<not> past_join s"
  using holding_unfinished[of s i] by (auto simp: inv_main_def)

lemmas unf = invariant_def inv_unfinished_def holders_def filter_update_count holding_def

lemma step_inv_unfinished:
  assumes "step fl s e t" "invariant s"
  shows "inv_unfinished t"
  using assms
proof (induction rule: step.induct)
  case (cashier_add_time_raises i s w customer product_take_time rest e)
  then show ?case using add_time_ok[of s i fl product_take_time] by (simp add: invariant_def)
next
  case (cashier_task_done_raises i s w customer e customer_time)
  then show ?case using task_done_ok[of s i] by (simp add: invariant_def holding_def)
next
  case (cashier_cancelled i s w)
  then have "\<not> holding w" using not_cancelled_while_holding[of s i] by (auto simp: invariant_def)
  with cashier_cancelled show ?case by (simp add: unf)
next
  case (cashier_task_done i s w customer q' customer_time)
  then show ?case by (auto simp: unf task_done_def split: if_splits)
next
  case (cashier_get i s w customer q')
  then show ?case by (auto simp: unf get_def split: list.splits)
next
  case (main_cancel s i w)
  then show ?case by (auto simp: unf)
qed (auto simp: unf put_def split: if_splits)

lemma step_inv_main:
  assumes "step fl s e t" "invariant s"
  shows "inv_main t"
  using assms
proof (induction rule: step.induct)
  case (producer_put p s new_customer q')
  then show ?case
    by (auto simp: invariant_def inv_main_def inv_producer_def Let_def past_join_def
             split: main_pc.splits)
next
  case (cashier_task_done i s w customer q' customer_time)
  then have "\<not> past_join s" using not_cancelled_while_holding[of s i]
    by (simp add: invariant_def holding_def)
  with cashier_task_done show ?case
    by (auto simp: invariant_def inv_main_def nth_list_update)
next
  case (main_join s)
  then show ?case
    by (auto simp: invariant_def inv_main_def past_join_def join_def split: if_splits)
next
  case (main_cancel s i w)
  then show ?case
    by (auto simp: invariant_def inv_main_def past_join_def nth_list_update)
next
  case (main_report s i)
  then show ?case
    by (auto simp: invariant_def inv_main_def past_join_def)
next
  case (main_awaited s r)
  then show ?case
    by (auto simp: invariant_def inv_main_def past_join_def)
qed (auto simp: invariant_def inv_main_def nth_list_update get_def split: list.splits)

lemma step_inv_cashier:
  assumes "step fl s e t" "invariant s"
  shows "inv_cashier t"
  using assms
proof (induction rule: step.induct)
  case (cashier_add_time_raises i s w customer product_take_time rest e)
  then show ?case using add_time_ok[of s i fl product_take_time] by (simp add: invariant_def)
next
  case (cashier_task_done_raises i s w customer e customer_time)
  then show ?case using task_done_ok[of s i] by (simp add: invariant_def holding_def)
next
  case (cashier_cancelled i s w)
  then show ?case
    by (auto simp: invariant_def inv_cashier_def inv_main_def nth_list_update)
next
  case (main_join s)
  then show ?case by (auto simp: invariant_def inv_cashier_def past_join_def)
next
  case (main_cancel s i w)
  then show ?case
    by (auto simp: invariant_def inv_cashier_def past_join_def nth_list_update)
next
  case (main_report s i)
  then show ?case by (auto simp: invariant_def inv_cashier_def past_join_def)
next
  case (main_awaited s r)
  then show ?case by (auto simp: invariant_def inv_cashier_def past_join_def)
qed (auto simp: invariant_def inv_cashier_def nth_list_update)

lemma step_invariant: "step fl s e t \<Longrightarrow> invariant s \<Longrightarrow> invariant t"
  using step_inv_shape[of fl s e t] step_inv_producer[of fl s e t] step_inv_unfinished[of fl s e t]
    step_inv_main[of fl s e t] step_inv_cashier[of fl s e t]
  by (simp add: invariant_def)

lemma invariant_init: "invariant main_init"
  by (simp add: invariant_def inv_shape_def inv_producer_def inv_unfinished_def inv_main_def
        inv_cashier_def main_init_def Queue_init_def new_cashier_def holders_def holding_def
        past_join_def nth_Cons' less_Suc_eq numeral_eq_Suc)

lemma run_invariant: "run fl main_init tr s \<Longrightarrow> invariant s"
  by (induction s0 \<equiv> main_init tr s rule: run.induct) (auto intro: invariant_init step_invariant)

section \<open>What a run records\<close>

lemmas cnt = n_put_def n_task_done_def gets_of_def dones_of_def customers_put_def

lemma step_tr_counts:
  assumes "step fl s e t" "invariant s" "tr_counts tr s"
  shows "tr_counts (tr @ [e]) t"
  using assms
proof (induction rule: step.induct)
  case (cashier_add_time_raises i s w customer product_take_time rest e)
  then show ?case using add_time_ok[of s i fl product_take_time] by (simp add: invariant_def)
next
  case (cashier_task_done_raises i s w customer e customer_time)
  then show ?case using task_done_ok[of s i] by (simp add: invariant_def holding_def)
next
  case (cashier_cancelled i s w)
  then have "\<not> holding w" using not_cancelled_while_holding[of s i] by (auto simp: invariant_def)
  with cashier_cancelled show ?case by (auto simp: tr_counts_def cnt nth_list_update holding_def)
next
  case (cashier_task_done i s w customer q' customer_time)
  then show ?case
    by (auto simp: tr_counts_def cnt nth_list_update holding_def task_done_def split: if_splits)
next
  case (cashier_get i s w customer q')
  then show ?case
    by (auto simp: tr_counts_def cnt nth_list_update holding_def get_def split: list.splits)
next
  case (producer_put p s new_customer q')
  then show ?case
    by (auto simp: tr_counts_def cnt put_def split: if_splits)
qed (auto simp: tr_counts_def cnt nth_list_update holding_def)

lemma step_tr_events:
  assumes "step fl s e t" "invariant s" "tr_events tr s"
  shows "tr_events (tr @ [e]) t"
  using assms
proof (induction rule: step.induct)
  case (cashier_add_time_raises i s w customer product_take_time rest e)
  then show ?case using add_time_ok[of s i fl product_take_time] by (simp add: invariant_def)
next
  case (cashier_task_done_raises i s w customer e customer_time)
  then show ?case using task_done_ok[of s i] by (simp add: invariant_def holding_def)
next
  case (cashier_cancelled i s w)
  then show ?case
    by (auto simp: tr_events_def nth_list_update)
next
  case (producer_while_false p s)
  then show ?case by (auto simp: tr_events_def invariant_def inv_producer_def Let_def)
next
  case (main_join s)
  then show ?case by (auto simp: tr_events_def past_join_def)
next
  case (main_cancel s i w)
  then show ?case by (auto simp: tr_events_def past_join_def nth_list_update)
next
  case (main_report s i)
  then show ?case by (auto simp: tr_events_def past_join_def)
next
  case (main_awaited s r)
  then show ?case by (auto simp: tr_events_def past_join_def)
qed (auto simp: tr_events_def nth_list_update)

lemma step_tr_puts:
  assumes "step fl s e t" "invariant s" "tr_puts fl tr s"
  shows "tr_puts fl (tr @ [e]) t"
  using assms
proof (induction rule: step.induct)
  case (producer_put p s new_customer q')
  then have c: "0 \<le> p_customer_count (customer_producer s)"
    by (simp add: invariant_def inv_producer_def Let_def)
  have u: "[0 .. p_customer_count (customer_producer s)] =
            [0 .. p_customer_count (customer_producer s) - 1] @ [p_customer_count (customer_producer s)]"
    using c upto_rec2[of 0 "p_customer_count (customer_producer s)"] by simp
  from producer_put show ?case by (simp add: tr_puts_def customers_put_def u)
qed (auto simp: tr_puts_def customers_put_def)

lemma inv_trace_init: "inv_trace fl [] main_init"
  by (simp add: inv_trace_def tr_counts_def tr_events_def tr_puts_def cnt main_init_def
        Queue_init_def new_cashier_def holding_def past_join_def nth_Cons' less_Suc_eq
        numeral_eq_Suc)

lemma run_inv_trace: "run fl main_init tr s \<Longrightarrow> invariant s \<and> inv_trace fl tr s"
proof (induction s0 \<equiv> main_init tr s rule: run.induct)
  case run_nil
  then show ?case by (simp add: invariant_init inv_trace_init)
next
  case (run_snoc tr m e t)
  then show ?case
    using step_invariant[of fl m e t] step_tr_counts[of fl m e t tr]
      step_tr_events[of fl m e t tr] step_tr_puts[of fl m e t tr]
    by (simp add: inv_trace_def)
qed

lemma run_snocE:
  assumes "run fl s (tr @ [e]) t"
  obtains m where "run fl s tr m" "step fl m e t"
  using assms by (cases rule: run.cases) auto

lemma run_append:
  "run fl s (tr1 @ tr2) t \<Longrightarrow> \<exists>m. run fl s tr1 m \<and> run fl m tr2 t"
proof (induction tr2 arbitrary: t rule: rev_induct)
  case Nil
  then show ?case by (auto intro: run.intros)
next
  case (snoc e tr2)
  from snoc.prems have "run fl s ((tr1 @ tr2) @ [e]) t" by simp
  then obtain m where m: "run fl s (tr1 @ tr2) m" "step fl m e t" by (rule run_snocE)
  from snoc.IH[OF m(1)] obtain m0 where "run fl s tr1 m0" "run fl m0 tr2 m" by blast
  with m(2) show ?case by (auto intro: run.intros)
qed

lemma run_single: "run fl s [e] t \<Longrightarrow> step fl s e t"
proof -
  assume "run fl s [e] t"
  then have "run fl s ([] @ [e]) t" by simp
  then obtain m where "run fl s [] m" "step fl m e t" by (rule run_snocE)
  then show ?thesis by (auto elim: run.cases)
qed

lemma run_Cons:
  "run fl s (e # tr) t \<Longrightarrow> \<exists>m. step fl s e m \<and> run fl m tr t"
  using run_append[of fl s "[e]" tr t] run_single[of fl s e] by auto

lemma run_trans: "run fl m tr2 t \<Longrightarrow> run fl s tr1 m \<Longrightarrow> run fl s (tr1 @ tr2) t"
proof (induction rule: run.induct)
  case (run_nil s)
  then show ?case by simp
next
  case (run_snoc m tr m' e t)
  then have "run fl s ((tr1 @ tr) @ [e]) t"
    using run.run_snoc[of fl s "tr1 @ tr" m' e t] by simp
  then show ?case by simp
qed

inductive_cases step_EJoinE: "step fl s EJoin t"
inductive_cases step_ERaiseE: "step fl s (ERaise i e) t"
inductive_cases step_ECancelE: "step fl s (ECancel i) t"

lemma join_iff:
  "run fl main_init tr s \<Longrightarrow> (join (customer_queue s) = Some ()) = (n_task_done tr = n_put tr)"
  using run_inv_trace[of fl tr s] by (auto simp: inv_trace_def tr_counts_def join_def)

section \<open>The products checked out\<close>

lemma length_all_products [simp]: "length (all_products fl) = 4"
  by (simp add: all_products_def)

lemma drop_eq_Cons:
  "drop k xs = p # rest \<Longrightarrow> k < length xs \<and> p = xs ! k \<and> rest = drop (Suc k) xs"
proof -
  assume a: "drop k xs = p # rest"
  then have k: "k < length xs" by (cases "k < length xs") auto
  from Cons_nth_drop_Suc[OF k] a show ?thesis using k by simp
qed

lemma step_inv_products:
  assumes "step fl s e t" "invariant s" "inv_products fl s"
  shows "inv_products fl t"
  using assms
proof (induction rule: step.induct)
  case (producer_while_true p s)
  then show ?case by (auto simp: inv_products_def generate_customer_def)
next
  case (producer_put p s new_customer q')
  then show ?case by (auto simp: inv_products_def put_def split: if_splits)
next
  case (cashier_get i s w customer q')
  then have "products customer = all_products fl"
    by (auto simp: inv_products_def get_def split: list.splits)
  moreover have "\<exists>k\<le>4. all_products fl = drop k (all_products fl)" by (rule exI[of _ 0]) simp
  ultimately show ?case using cashier_get
    by (auto simp: inv_products_def nth_list_update get_def split: list.splits)
next
  case (cashier_for_next i s w customer product rest product_take_time)
  then have ok: "pc_products_ok fl (CFor customer (product # rest))"
    by (auto simp: inv_products_def)
  then obtain k where k: "k \<le> 4" "product # rest = drop k (all_products fl)" by auto
  from drop_eq_Cons[OF k(2)[symmetric]]
  have "k < 4" "product = all_products fl ! k" "rest = drop (Suc k) (all_products fl)" by simp_all
  then have "pc_products_ok fl (CSleep customer product_take_time rest)"
    using ok cashier_for_next.hyps by (auto simp: take_time_def)
  then show ?case using cashier_for_next
    by (auto simp: inv_products_def nth_list_update)
next
  case (cashier_add_time i s w customer product_take_time rest times')
  then have ok: "pc_products_ok fl (CSleep customer product_take_time rest)"
    by (auto simp: inv_products_def)
  then obtain k where "k < 4" "rest = drop (Suc k) (all_products fl)" by auto
  then have "Suc k \<le> 4 \<and> rest = drop (Suc k) (all_products fl)" by simp
  then have "\<exists>k\<le>4. rest = drop k (all_products fl)" by blast
  moreover have "products customer = all_products fl" using ok by simp
  ultimately have "pc_products_ok fl (CFor customer rest)" by simp
  then show ?case using cashier_add_time
    by (auto simp: inv_products_def nth_list_update)
qed (auto simp: inv_products_def nth_list_update task_done_def split: if_splits)

lemma inv_products_init: "inv_products fl main_init"
  by (simp add: inv_products_def main_init_def Queue_init_def new_cashier_def
        nth_Cons' less_Suc_eq numeral_eq_Suc)

lemma run_inv_products: "run fl main_init tr s \<Longrightarrow> inv_products fl s"
proof (induction s0 \<equiv> main_init tr s rule: run.induct)
  case run_nil
  show ?case by (rule inv_products_init)
next
  case (run_snoc tr m e t)
  then show ?case using step_inv_products[of fl m e t] run_invariant[of fl tr m] by simp
qed

lemma step_tr_adds:
  assumes "step fl s e t" "invariant s" "inv_products fl s" "tr_adds tr s"
  shows "tr_adds (tr @ [e]) t"
  using assms
proof (induction rule: step.induct)
  case (cashier_add_time_raises i s w customer product_take_time rest e)
  then show ?case using add_time_ok[of s i fl product_take_time] by (simp add: invariant_def)
next
  case (cashier_task_done_raises i s w customer e customer_time)
  then show ?case using task_done_ok[of s i] by (simp add: invariant_def holding_def)
next
  case (cashier_cancelled i s w)
  then have "\<not> holding w" using not_cancelled_while_holding[of s i] by (auto simp: invariant_def)
  with cashier_cancelled show ?case
    by (auto simp: tr_adds_def adds_of_def dones_of_def nth_list_update holding_def suspended_def
             split: cashier_pc.splits)
next
  case (cashier_task_done i s w customer q' customer_time)
  then have "pc_products_ok fl (CFor customer [])" by (auto simp: inv_products_def)
  then have "length (products customer) = 4" by simp
  with cashier_task_done show ?case
    by (auto simp: tr_adds_def adds_of_def dones_of_def nth_list_update)
next
  case (cashier_add_time i s w customer product_take_time rest times')
  then have "pc_products_ok fl (CSleep customer product_take_time rest)"
    by (auto simp: inv_products_def)
  then have "length (products customer) = 4 \<and> length rest < 4" by auto
  with cashier_add_time show ?case
    by (auto simp: tr_adds_def adds_of_def dones_of_def nth_list_update)
next
  case (cashier_for_next i s w customer product rest product_take_time)
  then show ?case
    by (auto simp: tr_adds_def adds_of_def dones_of_def nth_list_update)
next
  case (cashier_get i s w customer q')
  then show ?case
    by (auto simp: tr_adds_def adds_of_def dones_of_def nth_list_update)
next
  case (cashier_while i s w)
  then show ?case
    by (auto simp: tr_adds_def adds_of_def dones_of_def nth_list_update)
next
  case (main_cancel s i w)
  then show ?case
    by (auto simp: tr_adds_def adds_of_def dones_of_def nth_list_update)
qed (auto simp: tr_adds_def adds_of_def dones_of_def)

lemma step_tr_ended:
  assumes "step fl s e t" "invariant s" "tr_ended tr s"
  shows "tr_ended (tr @ [e]) t"
  using assms
proof (induction rule: step.induct)
  case (cashier_add_time_raises i s w customer product_take_time rest e)
  then show ?case using add_time_ok[of s i fl product_take_time] by (simp add: invariant_def)
next
  case (cashier_task_done_raises i s w customer e customer_time)
  then show ?case using task_done_ok[of s i] by (simp add: invariant_def holding_def)
qed (auto simp: tr_ended_def finished_def nth_list_update)

lemma run_tr_more:
  "run fl main_init tr s \<Longrightarrow> inv_products fl s \<and> tr_adds tr s \<and> tr_ended tr s"
proof (induction s0 \<equiv> main_init tr s rule: run.induct)
  case run_nil
  have "tr_adds [] main_init \<and> tr_ended [] main_init"
    by (simp add: tr_adds_def tr_ended_def adds_of_def dones_of_def
          main_init_def new_cashier_def finished_def nth_Cons' less_Suc_eq numeral_eq_Suc)
  then show ?case using inv_products_init[of fl] by simp
next
  case (run_snoc tr m e t)
  then show ?case
    using step_inv_products[of fl m e t] step_tr_adds[of fl m e t tr]
      step_tr_ended[of fl m e t tr] run_invariant[of fl tr m]
    by simp
qed

section \<open>The cashier times are written by their own cashier\<close>

lemma step_frame:
  assumes "step fl s e t" "inv_shape s" "cashier_of e = Some i" "j \<noteq> i"
  shows "cashier_times t ! j = cashier_times s ! j"
  using assms
proof (induction rule: step.induct)
  case (cashier_add_time k s w customer product_take_time rest times')
  then show ?case using add_time_ok[of s k fl product_take_time] by auto
qed auto

lemma step_others_frame:
  assumes "step fl s e t" "cashier_of e = None"
  shows "cashier_times t = cashier_times s"
  using assms by (induction rule: step.induct) auto

lemma inv_shape_times_update:
  "inv_shape s \<Longrightarrow> inv_shape (s\<lparr>cashier_times := (cashier_times s)[j := v]\<rparr>)"
  by (simp add: inv_shape_def)

lemma times_upd_swap:
  "s\<lparr>cashier_times := X, cashiers := Y\<rparr> = s\<lparr>cashiers := Y, cashier_times := X\<rparr>"
  "s\<lparr>cashier_times := X, customer_queue := Q\<rparr> = s\<lparr>customer_queue := Q, cashier_times := X\<rparr>"
  by (cases s; simp)+

lemma step_independent:
  assumes "step fl s e t" "inv_shape s" "cashier_of e = Some i" "j \<noteq> i"
  shows "step fl (s\<lparr>cashier_times := (cashier_times s)[j := v]\<rparr>) e
           (t\<lparr>cashier_times := (cashier_times t)[j := v]\<rparr>)"
  using assms
proof (induction rule: step.induct)
  case (cashier_while k s w)
  then show ?case
    using step.cashier_while[of k "s\<lparr>cashier_times := (cashier_times s)[j := v]\<rparr>" w fl]
    by (simp add: times_upd_swap)
next
  case (cashier_get k s w customer q')
  then show ?case
    using step.cashier_get[of k "s\<lparr>cashier_times := (cashier_times s)[j := v]\<rparr>" w customer q' fl]
    by (simp add: times_upd_swap)
next
  case (cashier_for_next k s w customer product rest product_take_time)
  then show ?case
    using step.cashier_for_next[of k "s\<lparr>cashier_times := (cashier_times s)[j := v]\<rparr>" w
            customer product rest product_take_time fl]
    by (simp add: times_upd_swap)
next
  case (cashier_add_time k s w customer product_take_time rest times')
  let ?s = "s\<lparr>cashier_times := (cashier_times s)[j := v]\<rparr>"
  from cashier_add_time have ki: "k = i" by simp
  have t': "times' = (cashier_times s)[k := py_add fl (cashier_times s ! k) product_take_time]"
    using cashier_add_time add_time_ok[of s k fl product_take_time] by simp
  have "add_time fl (cashier_times ?s) (cashier_number (cashiers ?s ! k)) product_take_time =
          Inr ((cashier_times ?s)[k := py_add fl (cashier_times ?s ! k) product_take_time])"
    using cashier_add_time.hyps(1) cashier_add_time.prems(1)
    by (intro add_time_ok) (simp_all add: inv_shape_def)
  then have a: "add_time fl (cashier_times ?s) (cashier_number w) product_take_time =
          Inr (times'[j := v])"
    using cashier_add_time ki t' by (simp add: list_update_swap)
  show ?case
    using step.cashier_add_time[of k ?s w customer product_take_time rest fl "times'[j := v]"]
      cashier_add_time.hyps a
    by (simp add: times_upd_swap)
next
  case (cashier_add_time_raises k s w customer product_take_time rest e)
  then show ?case using add_time_ok[of s k fl product_take_time] by simp
next
  case (cashier_task_done k s w customer q' customer_time)
  then show ?case
    using step.cashier_task_done[of k "s\<lparr>cashier_times := (cashier_times s)[j := v]\<rparr>" w
            customer q' fl customer_time]
    by (simp add: times_upd_swap)
next
  case (cashier_task_done_raises k s w customer e customer_time)
  then show ?case
    using step.cashier_task_done_raises[of k "s\<lparr>cashier_times := (cashier_times s)[j := v]\<rparr>" w
            customer e fl customer_time]
    by (simp add: times_upd_swap)
next
  case (cashier_cancelled k s w)
  then show ?case
    using step.cashier_cancelled[of k "s\<lparr>cashier_times := (cashier_times s)[j := v]\<rparr>" w fl]
    by (simp add: times_upd_swap)
qed simp_all

lemma run_reachable_invariant:
  "run fl main_init tr0 s \<Longrightarrow> run fl s tr t \<Longrightarrow> invariant t"
  using run_trans[of fl s tr t main_init tr0] run_invariant[of fl "tr0 @ tr" t] by simp

text \<open>What a step does to \<open>cashier_times\<close>: an addition of cashier \<open>i\<close> replaces slot \<open>i\<close>,
  every other step leaves the list as it is.\<close>

lemma step_cashier_times:
  assumes "step fl s e u" "inv_shape s"
  shows "cashier_times u =
           (case e of
              EAddTime i x \<Rightarrow> (cashier_times s)[i := py_add fl (cashier_times s ! i) x]
            | _ \<Rightarrow> cashier_times s)"
  using assms
proof (induction rule: step.induct)
  case (cashier_add_time i s w customer product_take_time rest times')
  then show ?case using add_time_ok[of s i fl product_take_time] by simp
qed simp_all

lemma step_frame_others:
  assumes "step fl s e u" "inv_shape s" "cashier_of e \<noteq> Some j"
  shows "cashier_times u ! j = cashier_times s ! j"
  using step_cashier_times[OF assms(1,2)] assms(3) by (cases e) auto

lemma run_frame_others:
  assumes "run fl s tr t" "run fl main_init tr0 s" "\<forall>e \<in> set tr. cashier_of e \<noteq> Some j"
  shows "cashier_times t ! j = cashier_times s ! j"
  using assms
proof (induction rule: run.induct)
  case (run_nil s)
  show ?case by simp
next
  case (run_snoc s tr m e t)
  have "inv_shape m"
    using run_reachable_invariant[OF run_snoc.prems(1) run_snoc.hyps(1)]
    by (simp add: invariant_def)
  from step_frame_others[OF run_snoc.hyps(2) this] run_snoc.prems(2)
  have "cashier_times t ! j = cashier_times m ! j" by simp
  with run_snoc.IH[OF run_snoc.prems(1)] run_snoc.prems(2) show ?case by simp
qed

section \<open>The cashier times do not decrease\<close>

lemma round_half_even_nonneg: "0 \<le> x \<Longrightarrow> 0 \<le> round_half_even x"
  by (auto simp: round_half_even_def Let_def)

lemma fl_nonneg: "float_rounding fl \<Longrightarrow> 0 \<le> x \<Longrightarrow> 0 \<le> fl x"
  using monoD[of fl 0 x] by (auto simp: float_rounding_def)

lemma fl_mono: "float_rounding fl \<Longrightarrow> x \<le> y \<Longrightarrow> fl x \<le> fl y"
  by (auto simp: float_rounding_def dest: monoD)

lemma take_time_0: "take_time fl 0 = PyInt 1"
  by (simp add: take_time_def all_products_def py_round_def)

lemma py_round_float_nonneg:
  "float_rounding fl \<Longrightarrow> 0 \<le> r \<Longrightarrow> \<exists>x. py_round fl (PyFloat r) 2 = PyFloat x \<and> 0 \<le> x"
  by (simp add: py_round_def fl_nonneg round_half_even_nonneg)

lemma take_time_float:
  assumes "float_rounding fl" "0 < k" "k < 4"
  shows "\<exists>x. take_time fl k = PyFloat x \<and> 0 \<le> x"
proof -
  from assms(2,3) have "k = 1 \<or> k = 2 \<or> k = 3" by auto
  then show ?thesis
    using py_round_float_nonneg[OF assms(1), of "fl (4 / 10)"]
      py_round_float_nonneg[OF assms(1), of "fl (2 / 10)"] fl_nonneg[OF assms(1), of "4 / 10"]
      fl_nonneg[OF assms(1), of "2 / 10"]
    by (auto simp: take_time_def all_products_def)
qed

lemma slot_ok_nonneg: "slot_ok fl k v \<Longrightarrow> 0 \<le> num_val v"
  by (auto simp: slot_ok_def is_float_def num_val_def split: pynum.splits)

lemma add_float:
  assumes "float_rounding fl" "is_float fl v" "0 \<le> to_float fl t"
  shows "is_float fl (py_add fl v t) \<and> num_val v \<le> num_val (py_add fl v t)"
proof -
  from assms(2) obtain r where v: "v = PyFloat r" "fl r = r" "0 \<le> r"
    by (auto simp: is_float_def split: pynum.splits)
  have a: "py_add fl (PyFloat r) t = PyFloat (fl (r + to_float fl t))"
    by (cases t) (simp_all add: py_add_def to_float_def)
  have "fl r \<le> fl (r + to_float fl t)" using assms(3) by (intro fl_mono[OF assms(1)]) simp
  then have m: "r \<le> fl (r + to_float fl t)" using v by simp
  have "fl (fl (r + to_float fl t)) = fl (r + to_float fl t)"
    using assms(1) by (simp add: float_rounding_def)
  with m v show ?thesis by (simp add: a is_float_def num_val_def)
qed

lemma add_int_float:
  assumes "float_rounding fl" "i = 0 \<or> i = 1" "0 \<le> x"
  shows "is_float fl (py_add fl (PyInt i) (PyFloat x)) \<and>
         num_val (PyInt i) \<le> num_val (py_add fl (PyInt i) (PyFloat x))"
proof -
  have fi: "fl (of_int i) = of_int i" using assms(1,2) by (auto simp: float_rounding_def)
  have a: "py_add fl (PyInt i) (PyFloat x) = PyFloat (fl (of_int i + x))"
    by (simp add: py_add_def to_float_def fi)
  have "fl (of_int i) \<le> fl (of_int i + x)" using assms(3) by (intro fl_mono[OF assms(1)]) simp
  then have m: "of_int i \<le> fl (of_int i + x)" using fi by simp
  have z: "(0::rat) \<le> of_int i" using assms(2) by auto
  have "fl (fl (of_int i + x)) = fl (of_int i + x)"
    using assms(1) by (simp add: float_rounding_def)
  with m z show ?thesis by (simp add: a is_float_def num_val_def)
qed

lemma add_take_time:
  assumes "float_rounding fl" "slot_ok fl k v" "k < 4"
  shows "slot_ok fl (Suc k) (py_add fl v (take_time fl k)) \<and>
         num_val v \<le> num_val (py_add fl v (take_time fl k))"
proof (cases "k = 0")
  case True
  have t: "take_time fl k = PyInt 1" using True by (simp add: take_time_0)
  have tf: "0 \<le> to_float fl (PyInt 1)" using assms(1) by (simp add: to_float_def float_rounding_def)
  from assms(2) True have "is_float fl v \<or> v = PyInt 0" by (simp add: slot_ok_def)
  then show ?thesis
  proof
    assume "is_float fl v"
    from add_float[OF assms(1) this tf] show ?thesis by (simp add: t slot_ok_def)
  next
    assume "v = PyInt 0"
    then show ?thesis by (simp add: take_time_0 True slot_ok_def py_add_def num_val_def)
  qed
next
  case False
  then obtain x where t: "take_time fl k = PyFloat x" "0 \<le> x"
    using take_time_float[OF assms(1), of k] assms(3) by auto
  have tf: "0 \<le> to_float fl (PyFloat x)" using t by (simp add: to_float_def)
  from assms(2) False have "is_float fl v \<or> v = PyInt 1" by (auto simp: slot_ok_def)
  then show ?thesis
  proof
    assume "is_float fl v"
    from add_float[OF assms(1) this tf] show ?thesis by (simp add: t slot_ok_def)
  next
    assume "v = PyInt 1"
    then show ?thesis using add_int_float[OF assms(1), of 1 x] t by (simp add: slot_ok_def)
  qed
qed

lemma take_time_nonneg: "float_rounding fl \<Longrightarrow> k < 4 \<Longrightarrow> 0 \<le> num_val (take_time fl k)"
  using take_time_float[of fl k] take_time_0[of fl]
  by (cases "k = 0") (auto simp: num_val_def)

lemma slot_ok_done: "slot_ok fl 4 v \<Longrightarrow> slot_ok fl 0 v"
  by (simp add: slot_ok_def)

lemma step_inv_slots:
  assumes "step fl s e t" "invariant s" "inv_products fl s" "float_rounding fl" "inv_slots fl s"
  shows "inv_slots fl t \<and>
         (\<forall>j < length (cashier_times s). num_val (cashier_times s ! j) \<le> num_val (cashier_times t ! j))"
  using assms
proof (induction rule: step.induct)
  case (cashier_add_time_raises i s w customer product_take_time rest e)
  then show ?case using add_time_ok[of s i fl product_take_time] by (simp add: invariant_def)
next
  case (cashier_task_done_raises i s w customer e customer_time)
  then show ?case using task_done_ok[of s i] by (simp add: invariant_def holding_def)
next
  case (cashier_cancelled i s w)
  then have "\<not> holding w" using not_cancelled_while_holding[of s i] by (auto simp: invariant_def)
  with cashier_cancelled show ?case
    by (auto simp: inv_slots_def nth_list_update holding_def suspended_def
             split: cashier_pc.splits)
next
  case (cashier_task_done i s w customer q' customer_time)
  then have "pc_products_ok fl (CFor customer [])" by (auto simp: inv_products_def)
  then have l: "length (products customer) = 4" by simp
  from cashier_task_done l have "slot_ok fl 4 (cashier_times s ! i)"
    by (auto simp: inv_slots_def)
  then have "slot_ok fl 0 (cashier_times s ! i)" by (rule slot_ok_done)
  with cashier_task_done show ?case
    by (auto simp: inv_slots_def nth_list_update)
next
  case (cashier_add_time i s w customer product_take_time rest times')
  have sh: "inv_shape s" using cashier_add_time.prems by (simp add: invariant_def)
  then have len: "length (cashier_times s) = 5" "length (cashiers s) = 5"
    by (simp_all add: inv_shape_def)
  have t': "times' = (cashier_times s)[i := py_add fl (cashier_times s ! i) product_take_time]"
    using cashier_add_time.hyps add_time_ok[OF sh, of i fl product_take_time] by simp
  from cashier_add_time have "pc_products_ok fl (CSleep customer product_take_time rest)"
    by (auto simp: inv_products_def)
  then obtain k where k: "k < 4" "rest = drop (Suc k) (all_products fl)"
    "product_take_time = take_time fl k" "products customer = all_products fl" by auto
  then have pd: "products_done (CSleep customer product_take_time rest) = k"
    "products_done (CFor customer rest) = Suc k" by auto
  from cashier_add_time pd have "slot_ok fl k (cashier_times s ! i)"
    by (auto simp: inv_slots_def)
  from add_take_time[OF cashier_add_time.prems(3) this k(1)]
  have a: "slot_ok fl (Suc k) (py_add fl (cashier_times s ! i) product_take_time)"
    "num_val (cashier_times s ! i) \<le> num_val (py_add fl (cashier_times s ! i) product_take_time)"
    using k(3) by simp_all
  show ?case
    using cashier_add_time.hyps(1,2,3) cashier_add_time.prems(4) a pd len
    by (auto simp: inv_slots_def t' nth_list_update)
next
  case (cashier_for_next i s w customer product rest product_take_time)
  then show ?case by (auto simp: inv_slots_def nth_list_update)
next
  case (cashier_get i s w customer q')
  then show ?case by (auto simp: inv_slots_def nth_list_update)
next
  case (cashier_while i s w)
  then show ?case by (auto simp: inv_slots_def nth_list_update)
next
  case (main_cancel s i w)
  then show ?case by (auto simp: inv_slots_def nth_list_update)
qed (auto simp: inv_slots_def)

lemma step_tr_take:
  assumes "step fl s e t" "invariant s" "inv_products fl s" "tr_take fl tr"
  shows "tr_take fl (tr @ [e])"
  using assms
proof (induction rule: step.induct)
  case (cashier_add_time i s w customer product_take_time rest times')
  then have "pc_products_ok fl (CSleep customer product_take_time rest)"
    by (auto simp: inv_products_def)
  then have "\<exists>k<4. product_take_time = take_time fl k" by auto
  with cashier_add_time.prems(3) show ?case by (auto simp: tr_take_def)
qed (auto simp: tr_take_def)

lemma inv_slots_init: "inv_slots fl main_init"
  by (simp add: inv_slots_def slot_ok_def main_init_def new_cashier_def
        nth_Cons' less_Suc_eq numeral_eq_Suc)

lemma run_inv_slots:
  "run fl main_init tr s \<Longrightarrow> float_rounding fl \<Longrightarrow> inv_slots fl s \<and> tr_take fl tr"
proof (induction s0 \<equiv> main_init tr s rule: run.induct)
  case run_nil
  have "tr_take fl []" by (simp add: tr_take_def)
  then show ?case using inv_slots_init[of fl] by simp
next
  case (run_snoc tr m e t)
  then show ?case
    using step_inv_slots[of fl m e t] step_tr_take[of fl m e t tr]
      run_invariant[of fl tr m] run_inv_products[of fl tr m]
    by simp
qed

section \<open>The scheduler produces runs\<close>

lemma main_cancel_finished:
  "main_at s = MCancel i \<Longrightarrow> i < length (cashiers s) \<Longrightarrow> finished (cashiers s ! i) \<Longrightarrow>
   step fl s (ECancel i) (s\<lparr>main_at := MCancel (Suc i)\<rparr>)"
  using step.main_cancel[of s i "cashiers s ! i" fl] by simp

lemma main_cancel_unfinished:
  "main_at s = MCancel i \<Longrightarrow> i < length (cashiers s) \<Longrightarrow> \<not> finished (cashiers s ! i) \<Longrightarrow>
   step fl s (ECancel i)
     (s\<lparr>cashiers := (cashiers s)[i := (cashiers s ! i)\<lparr>must_cancel := True\<rparr>],
        main_at := MCancel (Suc i)\<rparr>)"
  using step.main_cancel[of s i "cashiers s ! i" fl] by simp

lemma next_step_sound: "next_step fl s a = Some (e, t) \<Longrightarrow> step fl s e t"
  unfolding next_step_def
  by (auto split: actor.splits producer_pc.splits option.splits if_splits cashier_pc.splits
        list.splits sum.splits main_pc.splits simp: Let_def
        intro: step.intros step.intros[simplified] main_cancel_finished main_cancel_unfinished)

lemma step_run_Cons: "step fl s e m \<Longrightarrow> run fl m tr t \<Longrightarrow> run fl s (e # tr) t"
proof -
  assume a: "step fl s e m" "run fl m tr t"
  have "run fl s ([] @ [e]) m" using a(1) run.run_nil[of fl s] by (rule run.run_snoc[rotated])
  then have r1: "run fl s [e] m" by simp
  from a(2) r1 show ?thesis
  proof (induction rule: run.induct)
    case (run_nil s)
    then show ?case by simp
  next
    case (run_snoc m tr m' e' t)
    then have "run fl s ((e # tr) @ [e']) t" using run.run_snoc[of fl s "e # tr" m' e' t] by simp
    then show ?case by simp
  qed
qed

lemma exec_run: "exec fl s as = Some (tr, t) \<Longrightarrow> run fl s tr t"
proof (induction as arbitrary: s tr t)
  case Nil
  then show ?case by (auto intro: run.intros)
next
  case (Cons a as)
  from Cons.prems obtain e m tr' where
    n: "next_step fl s a = Some (e, m)" and x: "exec fl m as = Some (tr', t)" and tr: "tr = e # tr'"
    by (auto split: option.splits)
  from next_step_sound[OF n] Cons.IH[OF x] show ?case unfolding tr by (rule step_run_Cons)
qed

lemma exec_append:
  "exec fl s (as @ bs) =
     (case exec fl s as of
        None \<Rightarrow> None
      | Some (tr, m) \<Rightarrow>
          (case exec fl m bs of None \<Rightarrow> None | Some (tr', t) \<Rightarrow> Some (tr @ tr', t)))"
  by (induction as arbitrary: s) (auto split: option.splits)

section \<open>Properties of the runs of the program\<close>

text \<open>The schedule above is a run of the system: it reaches the return of \<open>join\<close> and the
  first \<open>cancel()\<close>.\<close>

lemma is_cancel_ofD: "is_cancel_of i e \<Longrightarrow> e = ECancel i"
  by (cases e) simp_all

lemma is_joinD: "is_join e \<Longrightarrow> e = EJoin"
  by (cases e) simp_all

lemma exec_snoc:
  assumes "exec fl s (as @ [a]) = Some (tr', t)"
  shows "\<exists>tr m e. exec fl s as = Some (tr, m) \<and> next_step fl m a = Some (e, t) \<and> tr' = tr @ [e]"
  using assms by (auto simp: exec_append split: option.splits)

lemma until_cancel_last:
  "(case exec (\<lambda>x. x) main_init until_cancel of
      None \<Rightarrow> False
    | Some (tr, s) \<Rightarrow> is_cancel_of 0 (last tr) \<and> is_join (last (butlast tr)))"
  by code_simp

lemma program_reaches_join:
  "\<exists>tr s t. run (\<lambda>x. x) main_init tr s \<and> step (\<lambda>x. x) s EJoin t \<and> (\<exists>u. step (\<lambda>x. x) t (ECancel 0) u)"
proof -
  let ?f = "\<lambda>x::rat. x"
  from until_cancel_last obtain tr2 u where
    x: "exec ?f main_init until_cancel = Some (tr2, u)" and l: "is_cancel_of 0 (last tr2)"
       "is_join (last (butlast tr2))"
    by (auto split: option.splits)
  have uc: "until_cancel = (all_customers @ [Producer, Main, Main]) @ [Main]"
    by (simp add: until_cancel_def)
  from x obtain tr1 t e1 where
    x1: "exec ?f main_init (all_customers @ [Producer, Main, Main]) = Some (tr1, t)" and
    n1: "next_step ?f t Main = Some (e1, u)" and t2: "tr2 = tr1 @ [e1]"
    unfolding uc using exec_snoc by blast
  have uj: "all_customers @ [Producer, Main, Main] = (all_customers @ [Producer, Main]) @ [Main]"
    by simp
  from x1 obtain tr s e0 where
    x0: "exec ?f main_init (all_customers @ [Producer, Main]) = Some (tr, s)" and
    n0: "next_step ?f s Main = Some (e0, t)" and t1: "tr1 = tr @ [e0]"
    unfolding uj using exec_snoc by blast
  from l(1) have "is_cancel_of 0 e1" unfolding t2 by simp
  then have e1: "e1 = ECancel 0" by (rule is_cancel_ofD)
  have "butlast ((tr @ [e0]) @ [e1]) = tr @ [e0]" by (rule butlast_snoc)
  with l(2) have "is_join e0" unfolding t2 t1 by simp
  then have e0: "e0 = EJoin" by (rule is_joinD)
  have s0: "step ?f s EJoin t" using next_step_sound[OF n0] unfolding e0 .
  have s1: "step ?f t (ECancel 0) u" using next_step_sound[OF n1] unfolding e1 .
  have r: "run ?f main_init tr s" using x0 by (rule exec_run)
  from r s0 s1 show ?thesis by blast
qed

lemma program_holds_customer:
  "\<exists>tr s. run (\<lambda>x. x) main_init tr s \<and> 0 < length (cashiers s) \<and> holding (cashiers s ! 0)"
proof -
  let ?f = "\<lambda>x::rat. x"
  have "case exec ?f main_init (replicate 3 Producer @ replicate 2 (Cashier 0)) of
          None \<Rightarrow> False
        | Some (tr, s) \<Rightarrow> 0 < length (cashiers s) \<and> holding (cashiers s ! 0)"
    by code_simp
  then obtain tr s where
    "exec ?f main_init (replicate 3 Producer @ replicate 2 (Cashier 0)) = Some (tr, s)"
    "0 < length (cashiers s)" "holding (cashiers s ! 0)"
    by (auto split: option.splits)
  then show ?thesis using exec_run by blast
qed

text \<open>The schedule to the end is a run too: every customer is marked done and every
  cashier ends cancelled. A shorter run stops where cashier 0 has checked out all products
  of its customer, another one takes cashier 0 through one customer.\<close>

lemma whole_run_facts:
  "(case exec (\<lambda>x. x) main_init whole_run of
      None \<Rightarrow> False
    | Some (tr, s) \<Rightarrow>
        length (cashiers s) = 5 \<and> list_all (\<lambda>i. finished (cashiers s ! i)) [0, 1, 2, 3, 4] \<and>
        n_task_done tr = 20 \<and> n_put tr = 20 \<and> gets_of 0 tr = 4 \<and> adds_of 0 tr = 16)"
  by code_simp

lemma program_runs_to_end:
  "\<exists>tr s. run (\<lambda>x. x) main_init tr s \<and> length (cashiers s) = 5 \<and>
     (\<forall>i<5. finished (cashiers s ! i)) \<and>
     n_task_done tr = 20 \<and> n_put tr = 20 \<and> gets_of 0 tr = 4 \<and> adds_of 0 tr = 16"
proof -
  from whole_run_facts obtain tr s where
    x: "exec (\<lambda>x. x) main_init whole_run = Some (tr, s)" and
    f: "length (cashiers s) = 5" "list_all (\<lambda>i. finished (cashiers s ! i)) [0, 1, 2, 3, 4]"
       "n_task_done tr = 20" "n_put tr = 20" "gets_of 0 tr = 4" "adds_of 0 tr = 16"
    by (auto split: option.splits)
  from f(2) have "\<forall>i<5. finished (cashiers s ! i)"
    by (simp add: less_Suc_eq numeral_eq_Suc)
  with exec_run[OF x] f show ?thesis by blast
qed

lemma program_reaches_task_done:
  "\<exists>tr s c. run (\<lambda>x. x) main_init tr s \<and> 0 < length (cashiers s) \<and>
     c_pc (cashiers s ! 0) = CFor c [] \<and> gets_of 0 tr = 1 \<and> adds_of 0 tr = 4"
proof -
  let ?f = "\<lambda>x::rat. x"
  have "case exec ?f main_init (replicate 3 Producer @ replicate 10 (Cashier 0)) of
          None \<Rightarrow> False
        | Some (tr, s) \<Rightarrow>
            0 < length (cashiers s) \<and> gets_of 0 tr = 1 \<and> adds_of 0 tr = 4 \<and>
            (case c_pc (cashiers s ! 0) of CFor c [] \<Rightarrow> True | _ \<Rightarrow> False)"
    by code_simp
  then obtain tr s where
    x: "exec ?f main_init (replicate 3 Producer @ replicate 10 (Cashier 0)) = Some (tr, s)" and
    l: "0 < length (cashiers s)" "gets_of 0 tr = 1" "adds_of 0 tr = 4" and
    c: "case c_pc (cashiers s ! 0) of CFor c [] \<Rightarrow> True | _ \<Rightarrow> False"
    by (auto split: option.splits)
  from c obtain c' where "c_pc (cashiers s ! 0) = CFor c' []"
    by (auto split: cashier_pc.splits list.splits)
  with exec_run[OF x] l show ?thesis by blast
qed

lemma one_cashier_run:
  "\<exists>tr0 s tr t. run (\<lambda>x. x) main_init tr0 s \<and> run (\<lambda>x. x) s tr t \<and>
     list_all (\<lambda>e. cashier_of e = Some 0) tr \<and>
     cashier_times s ! 0 = PyInt 0 \<and> cashier_times t ! 0 = PyFloat 2"
proof -
  let ?f = "\<lambda>x::rat. x"
  have "case exec ?f main_init (replicate 3 Producer) of
          None \<Rightarrow> False
        | Some (tr0, s) \<Rightarrow>
            (case exec ?f s (replicate 11 (Cashier 0)) of
               None \<Rightarrow> False
             | Some (tr, t) \<Rightarrow>
                 list_all (\<lambda>e. cashier_of e = Some 0) tr \<and>
                 cashier_times s ! 0 = PyInt 0 \<and> cashier_times t ! 0 = PyFloat 2)"
    by code_simp
  then obtain tr0 s tr t where
    "exec ?f main_init (replicate 3 Producer) = Some (tr0, s)"
    "exec ?f s (replicate 11 (Cashier 0)) = Some (tr, t)"
    "list_all (\<lambda>e. cashier_of e = Some 0) tr"
    "cashier_times s ! 0 = PyInt 0" "cashier_times t ! 0 = PyFloat 2"
    by (auto split: option.splits)
  then show ?thesis using exec_run by blast
qed

inductive_cases step_ETaskDoneE: "step fl s (ETaskDone i) t"
inductive_cases step_ECancelledE: "step fl s (ECancelled i) t"

lemma task_done_step:
  assumes "step fl s (ETaskDone i) t"
  shows "i < length (cashiers s) \<and> (\<exists>c. c_pc (cashiers s ! i) = CFor c []) \<and>
         c_pc (cashiers t ! i) = CWhile \<and>
         unfinished_tasks (customer_queue t) = unfinished_tasks (customer_queue s) - 1"
  using assms
  by (auto elim!: step_ETaskDoneE simp: task_done_def split: if_splits)

lemma cashier_step_at_task_done:
  assumes "step fl s e t" "cashier_of e = Some i" "c_pc (cashiers s ! i) = CFor c []"
    "inv_unfinished s" "i < length (cashiers s)"
  shows "e = ETaskDone i"
  using assms
proof (induction rule: step.induct)
  case (cashier_task_done_raises k s w customer e customer_time)
  then show ?case using task_done_ok[of s k] by (simp add: holding_def)
qed (auto simp: suspended_def)

text \<open>
  C1. In every run of the program, \<open>join()\<close> can return exactly when as many \<open>task_done\<close>
  calls as \<open>put\<close> calls have returned: the queue lets \<open>join\<close> through in exactly these
  states; the step of \<open>main\<close> out of \<open>join\<close> is possible exactly when \<open>main\<close> is in \<open>join\<close>
  and the two counts are equal (so it is not taken earlier, and it is not blocked once
  they are equal); at every return of \<open>join\<close> in a run the counts before it are equal,
  and they are equal ever after.
\<close>

theorem join_returns_exactly_when_done:
  assumes "run fl main_init tr s"
  shows "(join (customer_queue s) = Some ()) = (n_task_done tr = n_put tr) \<and>
         (\<exists>t. step fl s EJoin t) = (main_at s = MJoin \<and> n_task_done tr = n_put tr) \<and>
         (\<forall>tr1 tr2. tr = tr1 @ EJoin # tr2 \<longrightarrow> n_task_done tr1 = n_put tr1) \<and>
         (EJoin \<in> set tr \<longrightarrow> n_task_done tr = n_put tr)"
proof (intro conjI allI impI)
  show j: "(join (customer_queue s) = Some ()) = (n_task_done tr = n_put tr)"
    using assms by (rule join_iff)
  show "(\<exists>t. step fl s EJoin t) = (main_at s = MJoin \<and> n_task_done tr = n_put tr)"
    using j by (auto elim!: step_EJoinE intro: step.main_join)
next
  fix tr1 tr2 assume "tr = tr1 @ EJoin # tr2"
  with assms obtain m where m: "run fl main_init tr1 m" "run fl m (EJoin # tr2) s"
    using run_append[of fl main_init tr1 "EJoin # tr2" s] by auto
  from m(2) obtain m' where "step fl m EJoin m'" using run_Cons by blast
  then have "join (customer_queue m) = Some ()" by (auto elim: step_EJoinE)
  then show "n_task_done tr1 = n_put tr1" using join_iff[OF m(1)] by simp
next
  assume "EJoin \<in> set tr"
  then show "n_task_done tr = n_put tr"
    using run_inv_trace[OF assms]
    by (auto simp: inv_trace_def tr_counts_def tr_events_def invariant_def inv_main_def)
qed

theorem join_returns_exactly_when_done_witness:
  "\<exists>tr s. run (\<lambda>x. x) main_init tr s \<and> (\<exists>t. step (\<lambda>x. x) s EJoin t) \<and>
          main_at s = MJoin \<and> n_task_done tr = n_put tr \<and> join (customer_queue s) = Some ()"
proof -
  from program_reaches_join obtain tr s t where
    r: "run (\<lambda>x. x) main_init tr s" and j: "step (\<lambda>x. x) s EJoin t" by blast
  from j have e: "\<exists>t. step (\<lambda>x. x) s EJoin t" by blast
  from join_returns_exactly_when_done[OF r] e
  have "main_at s = MJoin \<and> n_task_done tr = n_put tr \<and> join (customer_queue s) = Some ()"
    by simp
  with r e show ?thesis by blast
qed




text \<open>
  C5. In every run of the program no call raises: no \<open>task_done\<close> has failed and none can
  fail in the state reached, so U never goes negative and at most as many \<open>task_done\<close>
  calls as puts have returned. Each cashier calls \<open>task_done\<close> exactly once per customer it
  has taken and fully checked out: it has marked done exactly the customers it took, less
  the one it still holds; each customer marked done had all four products checked out;
  a cashier that has checked out all products of its customer can only go on by
  \<open>task_done\<close>, which is then possible; and \<open>task_done\<close> is called nowhere else, takes 1
  from U and brings the cashier back to the head of its loop. The runs include those in
  which cancellation is requested and delivered.
\<close>

theorem task_done_never_fails:
  assumes "run fl main_init tr s"
  shows "(\<forall>e \<in> set tr. \<not> is_raise e) \<and> (\<forall>i e t. \<not> step fl s (ERaise i e) t) \<and>
         n_task_done tr \<le> n_put tr \<and> 0 \<le> unfinished_tasks (customer_queue s) \<and>
         (\<forall>i < length (cashiers s).
            gets_of i tr = dones_of i tr + (if holding (cashiers s ! i) then 1 else 0)) \<and>
         (\<forall>i < length (cashiers s). holding (cashiers s ! i) \<longrightarrow>
            (\<exists>q'. task_done (customer_queue s) = Inr q')) \<and>
         (\<forall>i < length (cashiers s).
            adds_of i tr = 4 * dones_of i tr + products_done (c_pc (cashiers s ! i))) \<and>
         (\<forall>i < length (cashiers s). \<forall>c. c_pc (cashiers s ! i) = CFor c [] \<longrightarrow>
            (\<exists>t. step fl s (ETaskDone i) t) \<and>
            (\<forall>e t. step fl s e t \<and> cashier_of e = Some i \<longrightarrow> e = ETaskDone i)) \<and>
         (\<forall>i t. step fl s (ETaskDone i) t \<longrightarrow>
            i < length (cashiers s) \<and> (\<exists>c. c_pc (cashiers s ! i) = CFor c []) \<and>
            c_pc (cashiers t ! i) = CWhile \<and>
            unfinished_tasks (customer_queue t) = unfinished_tasks (customer_queue s) - 1)"
proof -
  note i = run_inv_trace[OF assms]
  then have inv: "invariant s" and trc: "tr_counts tr s" and tre: "tr_events tr s"
    by (simp_all add: inv_trace_def)
  have u: "inv_unfinished s" and sh: "inv_shape s" using inv by (simp_all add: invariant_def)
  have 1: "\<forall>e \<in> set tr. \<not> is_raise e" using tre by (simp add: tr_events_def)
  have 2: "\<forall>i e t. \<not> step fl s (ERaise i e) t"
  proof (intro allI notI)
    fix i e t assume "step fl s (ERaise i e) t"
    then show False
      using add_time_ok[OF sh, of i fl] task_done_ok[OF u, of i]
      by (auto elim!: step_ERaiseE simp: holding_def)
  qed
  have 4: "0 \<le> unfinished_tasks (customer_queue s)" using u by (simp add: inv_unfinished_def)
  have 3: "n_task_done tr \<le> n_put tr" using 4 trc by (simp add: tr_counts_def)
  have 5: "\<forall>i < length (cashiers s).
            gets_of i tr = dones_of i tr + (if holding (cashiers s ! i) then 1 else 0)"
    using trc by (simp add: tr_counts_def)
  have 6: "\<forall>i < length (cashiers s). holding (cashiers s ! i) \<longrightarrow>
            (\<exists>q'. task_done (customer_queue s) = Inr q')"
    using task_done_ok[OF u] by blast
  have 7: "\<forall>i < length (cashiers s).
            adds_of i tr = 4 * dones_of i tr + products_done (c_pc (cashiers s ! i))"
    using run_tr_more[OF assms] by (simp add: tr_adds_def)
  have 8: "\<forall>i < length (cashiers s). \<forall>c. c_pc (cashiers s ! i) = CFor c [] \<longrightarrow>
            (\<exists>t. step fl s (ETaskDone i) t) \<and>
            (\<forall>e t. step fl s e t \<and> cashier_of e = Some i \<longrightarrow> e = ETaskDone i)"
  proof (intro allI impI)
    fix i c assume il: "i < length (cashiers s)" and pc: "c_pc (cashiers s ! i) = CFor c []"
    then have h: "holding (cashiers s ! i)" by (simp add: holding_def)
    from task_done_ok[OF u il h] step.cashier_task_done[OF il refl pc]
    have "\<exists>t. step fl s (ETaskDone i) t" by blast
    moreover have "\<forall>e t. step fl s e t \<and> cashier_of e = Some i \<longrightarrow> e = ETaskDone i"
      using cashier_step_at_task_done[OF _ _ pc u il] by blast
    ultimately show "(\<exists>t. step fl s (ETaskDone i) t) \<and>
            (\<forall>e t. step fl s e t \<and> cashier_of e = Some i \<longrightarrow> e = ETaskDone i)" by blast
  qed
  have 9: "\<forall>i t. step fl s (ETaskDone i) t \<longrightarrow>
            i < length (cashiers s) \<and> (\<exists>c. c_pc (cashiers s ! i) = CFor c []) \<and>
            c_pc (cashiers t ! i) = CWhile \<and>
            unfinished_tasks (customer_queue t) = unfinished_tasks (customer_queue s) - 1"
    using task_done_step by blast
  show ?thesis using 1 2 3 4 5 6 7 8 9 by blast
qed

theorem task_done_never_fails_witness:
  "(\<exists>tr s. run (\<lambda>x. x) main_init tr s \<and> (\<forall>i<5. finished (cashiers s ! i)) \<and>
      n_put tr = 20 \<and> n_task_done tr = 20 \<and> gets_of 0 tr = 4 \<and> dones_of 0 tr = 4 \<and>
      adds_of 0 tr = 16 \<and> list_all (\<lambda>e. \<not> is_raise e) tr) \<and>
   (\<exists>tr s c t. run (\<lambda>x. x) main_init tr s \<and> c_pc (cashiers s ! 0) = CFor c [] \<and>
      step (\<lambda>x. x) s (ETaskDone 0) t \<and> c_pc (cashiers t ! 0) = CWhile \<and>
      unfinished_tasks (customer_queue t) = unfinished_tasks (customer_queue s) - 1 \<and>
      gets_of 0 tr = 1 \<and> dones_of 0 tr = 0 \<and> adds_of 0 tr = 4)"
proof -
  from program_runs_to_end obtain tr s where
    r: "run (\<lambda>x. x) main_init tr s" and l: "length (cashiers s) = 5" and
    f: "\<forall>i<5. finished (cashiers s ! i)" and
    n: "n_task_done tr = 20" "n_put tr = 20" "gets_of 0 tr = 4" "adds_of 0 tr = 16"
    by blast
  from f have "finished (cashiers s ! 0)" by simp
  then have nh: "\<not> holding (cashiers s ! 0)"
    by (auto simp: finished_def holding_def split: cashier_pc.splits)
  note t = task_done_never_fails[OF r]
  note t1 = t[THEN conjunct1]
  note t5 = t[THEN conjunct2, THEN conjunct2, THEN conjunct2, THEN conjunct2, THEN conjunct1]
  have "gets_of 0 tr = dones_of 0 tr + (if holding (cashiers s ! 0) then 1 else 0)"
    using t5[rule_format, of 0] l by simp
  with nh n(3) have d: "dones_of 0 tr = 4" by simp
  from t1 have nr: "list_all (\<lambda>e. \<not> is_raise e) tr" by (simp add: list_all_iff)
  have 1: "\<exists>tr s. run (\<lambda>x. x) main_init tr s \<and> (\<forall>i<5. finished (cashiers s ! i)) \<and>
      n_put tr = 20 \<and> n_task_done tr = 20 \<and> gets_of 0 tr = 4 \<and> dones_of 0 tr = 4 \<and>
      adds_of 0 tr = 16 \<and> list_all (\<lambda>e. \<not> is_raise e) tr"
    using r f n d nr by (intro exI[of _ tr] exI[of _ s]) simp
  from program_reaches_task_done obtain tr' s' c where
    r': "run (\<lambda>x. x) main_init tr' s'" and l': "0 < length (cashiers s')" and
    pc: "c_pc (cashiers s' ! 0) = CFor c []" and
    n': "gets_of 0 tr' = 1" "adds_of 0 tr' = 4"
    by blast
  note t' = task_done_never_fails[OF r']
  note t5' = t'[THEN conjunct2, THEN conjunct2, THEN conjunct2, THEN conjunct2, THEN conjunct1]
  note t8' = t'[THEN conjunct2, THEN conjunct2, THEN conjunct2, THEN conjunct2, THEN conjunct2,
               THEN conjunct2, THEN conjunct2, THEN conjunct1]
  note t9' = t'[THEN conjunct2, THEN conjunct2, THEN conjunct2, THEN conjunct2, THEN conjunct2,
               THEN conjunct2, THEN conjunct2, THEN conjunct2]
  from t8'[rule_format, OF l' pc] obtain u where st: "step (\<lambda>x. x) s' (ETaskDone 0) u"
    by (elim conjE exE)
  from t9'[rule_format, OF st] have e: "c_pc (cashiers u ! 0) = CWhile"
    "unfinished_tasks (customer_queue u) = unfinished_tasks (customer_queue s') - 1"
    by simp_all
  from pc have h: "holding (cashiers s' ! 0)" by (simp add: holding_def)
  have "gets_of 0 tr' = dones_of 0 tr' + (if holding (cashiers s' ! 0) then 1 else 0)"
    using t5'[rule_format, OF l'] .
  with h n'(1) have d': "dones_of 0 tr' = 0" by simp
  have 2: "\<exists>tr s c t. run (\<lambda>x. x) main_init tr s \<and> c_pc (cashiers s ! 0) = CFor c [] \<and>
      step (\<lambda>x. x) s (ETaskDone 0) t \<and> c_pc (cashiers t ! 0) = CWhile \<and>
      unfinished_tasks (customer_queue t) = unfinished_tasks (customer_queue s) - 1 \<and>
      gets_of 0 tr = 1 \<and> dones_of 0 tr = 0 \<and> adds_of 0 tr = 4"
    using r' pc st e n' d'
    by (intro exI[of _ tr'] exI[of _ s'] exI[of _ c] exI[of _ u]) simp
  from 1 2 show ?thesis by (rule conjI)
qed

text \<open>
  C6. Whenever \<open>main\<close> calls \<open>cancel()\<close> on a cashier, the producer has returned (20
  customers), \<open>main\<close> has awaited it, \<open>join()\<close> has returned, and no customer is
  unprocessed: U is 0, the queue is empty, no cashier holds a customer, and 20 puts and 20
  \<open>task_done\<close> calls have returned.
\<close>

theorem cancel_only_after_join:
  assumes "run fl main_init tr s" "step fl s (ECancel i) t"
  shows "(\<exists>e \<in> set tr. is_awaited e) \<and> EProducerReturn 20 \<in> set tr \<and> EJoin \<in> set tr \<and>
         p_pc (customer_producer s) = PReturned 20 \<and>
         unfinished_tasks (customer_queue s) = 0 \<and> items (customer_queue s) = [] \<and>
         holders s = 0 \<and> n_put tr = 20 \<and> n_task_done tr = 20"
proof -
  note i = run_inv_trace[OF assms(1)]
  from assms(2) obtain k where k: "main_at s = MCancel k" by (auto elim: step_ECancelE)
  then have pj: "past_join s" by (simp add: past_join_def)
  from i pj have u0: "unfinished_tasks (customer_queue s) = 0"
    by (simp add: invariant_def inv_main_def)
  with i have "int (length (items (customer_queue s))) + int (holders s) = 0"
    by (simp add: invariant_def inv_unfinished_def)
  then have "length (items (customer_queue s)) = 0 \<and> holders s = 0" by linarith
  then have e: "items (customer_queue s) = []" "holders s = 0" by simp_all
  from i pj k have "(\<exists>e \<in> set tr. is_awaited e) \<and> EProducerReturn 20 \<in> set tr \<and> EJoin \<in> set tr \<and>
         p_pc (customer_producer s) = PReturned 20 \<and> n_put tr = 20"
    by (auto simp: inv_trace_def tr_counts_def tr_events_def invariant_def
          inv_producer_def Let_def)
  moreover from this i u0 have "n_task_done tr = 20"
    by (simp add: inv_trace_def tr_counts_def)
  ultimately show ?thesis using u0 e by simp
qed

theorem cancel_only_after_join_witness:
  "\<exists>tr s t. run (\<lambda>x. x) main_init tr s \<and> step (\<lambda>x. x) s (ECancel 0) t \<and>
            EJoin \<in> set tr \<and> p_pc (customer_producer s) = PReturned 20 \<and>
            unfinished_tasks (customer_queue s) = 0 \<and> n_put tr = 20 \<and> n_task_done tr = 20"
proof -
  from program_reaches_join obtain tr s t u where
    r: "run (\<lambda>x. x) main_init tr s" and j: "step (\<lambda>x. x) s EJoin t"
    and c: "step (\<lambda>x. x) t (ECancel 0) u" by blast
  from r j have r': "run (\<lambda>x. x) main_init (tr @ [EJoin]) t" by (rule run.run_snoc)
  from cancel_only_after_join[OF r' c] r' c show ?thesis by blast
qed

text \<open>
  C7. The consumer never terminates on its own. Whatever queue, cashier number and
  cashier times it is started with, \<open>checkout_customer\<close> never returns normally: its result
  is never a returned total time, so the \<open>return\<close> after the loop is unreachable. And in
  every run of the program a cashier task ends only through the cancellation that \<open>main\<close>
  issues: no cashier has returned, a cashier task that has ended was left by
  \<open>CancelledError\<close>, delivered to it after \<open>main\<close> called \<open>cancel()\<close> on it, after \<open>join()\<close>
  returned; and a cancellation can be delivered only after that call.
\<close>

theorem checkout_customer_never_returns:
  "checkout_customer fl elapsed queue number times0 \<noteq> Some (Inr returned, queue', times1) \<and>
   (run fl' main_init tr s \<longrightarrow>
      (\<forall>i < length (cashiers s).
         (\<forall>r. c_pc (cashiers s ! i) \<noteq> CReturned r) \<and>
         (finished (cashiers s ! i) \<longrightarrow>
            c_pc (cashiers s ! i) = CRaised CancelledError \<and>
            ECancelled i \<in> set tr \<and> ECancel i \<in> set tr \<and> EJoin \<in> set tr)) \<and>
      (\<forall>i t. step fl' s (ECancelled i) t \<longrightarrow> ECancel i \<in> set tr \<and> EJoin \<in> set tr))"
proof (intro conjI impI)
  show "checkout_customer fl elapsed queue number times0 \<noteq> Some (Inr returned, queue', times1)"
    using checkout_customer_loop_result[of fl elapsed number queue times0 0 "PyInt 0"
            "(Inr returned, queue', times1)"]
    by (auto simp: checkout_customer_def)
next
  assume r: "run fl' main_init tr s"
  note i = run_inv_trace[OF r]
  then have inv: "inv_cashier s" and tre: "tr_events tr s"
    by (simp_all add: inv_trace_def invariant_def)
  have te: "tr_ended tr s" using run_tr_more[OF r] by simp
  show "\<forall>i < length (cashiers s).
         (\<forall>r. c_pc (cashiers s ! i) \<noteq> CReturned r) \<and>
         (finished (cashiers s ! i) \<longrightarrow>
            c_pc (cashiers s ! i) = CRaised CancelledError \<and>
            ECancelled i \<in> set tr \<and> ECancel i \<in> set tr \<and> EJoin \<in> set tr)"
  proof (intro allI impI conjI)
    fix i ra assume il: "i < length (cashiers s)"
    show "c_pc (cashiers s ! i) \<noteq> CReturned ra" using inv il by (simp add: inv_cashier_def)
  next
    fix i assume il: "i < length (cashiers s)" and f: "finished (cashiers s ! i)"
    from f inv il show "c_pc (cashiers s ! i) = CRaised CancelledError"
      by (auto simp: finished_def inv_cashier_def split: cashier_pc.splits)
    from te il f show c: "ECancelled i \<in> set tr" by (simp add: tr_ended_def)
    with tre il show c2: "ECancel i \<in> set tr" by (auto simp: tr_events_def)
    with tre il show "EJoin \<in> set tr" by (auto simp: tr_events_def)
  qed
  show "\<forall>i t. step fl' s (ECancelled i) t \<longrightarrow> ECancel i \<in> set tr \<and> EJoin \<in> set tr"
  proof (intro allI impI)
    fix i t assume "step fl' s (ECancelled i) t"
    then have "i < length (cashiers s) \<and> must_cancel (cashiers s ! i)"
      by (auto elim: step_ECancelledE)
    with tre show "ECancel i \<in> set tr \<and> EJoin \<in> set tr" by (auto simp: tr_events_def)
  qed
qed

theorem checkout_customer_never_returns_witness:
  "\<exists>tr s. run (\<lambda>x. x) main_init tr s \<and> length (cashiers s) = 5 \<and>
     (\<forall>i<5. finished (cashiers s ! i) \<and> c_pc (cashiers s ! i) = CRaised CancelledError \<and>
        ECancelled i \<in> set tr \<and> ECancel i \<in> set tr) \<and> EJoin \<in> set tr"
proof -
  from program_runs_to_end obtain tr s where
    r: "run (\<lambda>x. x) main_init tr s" and l: "length (cashiers s) = 5" and
    f: "\<forall>i<5. finished (cashiers s ! i)"
    by blast
  note t = checkout_customer_never_returns[of "\<lambda>x. x" "\<lambda>k. PyInt 0" "Queue_init 5" 0 "[]"
             "PyInt 0" "Queue_init 5" "[]" "\<lambda>x. x" tr s, THEN conjunct2, rule_format, OF r]
  from t l f have a: "\<forall>i<5. finished (cashiers s ! i) \<and>
        c_pc (cashiers s ! i) = CRaised CancelledError \<and>
        ECancelled i \<in> set tr \<and> ECancel i \<in> set tr \<and> EJoin \<in> set tr"
    by auto
  then have "EJoin \<in> set tr" using a[rule_format, of 0] by simp
  with a show ?thesis using r l by blast
qed

lemma cashier_run_independent:
  assumes "run fl main_init tr0 s" "run fl s tr t" "\<forall>e \<in> set tr. cashier_of e = Some i"
    "j \<noteq> i"
  shows "cashier_times t ! j = cashier_times s ! j \<and>
         run fl (s\<lparr>cashier_times := (cashier_times s)[j := v]\<rparr>) tr
                (t\<lparr>cashier_times := (cashier_times t)[j := v]\<rparr>)"
  using assms(2,1,3)
proof (induction rule: run.induct)
  case (run_nil s)
  show ?case by (simp add: run.run_nil)
next
  case (run_snoc s tr m e t)
  have sh: "inv_shape m"
    using run_reachable_invariant[OF run_snoc.prems(1) run_snoc.hyps(1)]
    by (simp add: invariant_def)
  have e: "cashier_of e = Some i" using run_snoc.prems(2) by simp
  have ih: "cashier_times m ! j = cashier_times s ! j"
    "run fl (s\<lparr>cashier_times := (cashier_times s)[j := v]\<rparr>) tr
            (m\<lparr>cashier_times := (cashier_times m)[j := v]\<rparr>)"
    using run_snoc.IH[OF run_snoc.prems(1)] run_snoc.prems(2) by simp_all
  have 1: "cashier_times t ! j = cashier_times m ! j"
    using step_frame[OF run_snoc.hyps(2) sh e assms(4)] .
  have 2: "step fl (m\<lparr>cashier_times := (cashier_times m)[j := v]\<rparr>) e
                  (t\<lparr>cashier_times := (cashier_times t)[j := v]\<rparr>)"
    using step_independent[OF run_snoc.hyps(2) sh e assms(4)] .
  from ih(2) 2 have "run fl (s\<lparr>cashier_times := (cashier_times s)[j := v]\<rparr>) (tr @ [e])
                (t\<lparr>cashier_times := (cashier_times t)[j := v]\<rparr>)"
    by (rule run.run_snoc)
  with 1 ih(1) show ?case by simp
qed

text \<open>
  C8. Each cashier mutates only its own slot of \<open>cashier_times\<close> and reads no other. From
  any state the program reaches: over any steps none of which is a step of cashier \<open>j\<close>,
  slot \<open>j\<close> keeps its value; over any number of steps of cashier \<open>i\<close>, every slot \<open>j \<noteq> i\<close> keeps
  its value, and the same steps are possible, with the same events and the same results,
  whatever value slot \<open>j\<close> holds; and a single step changes \<open>cashier_times\<close> only as the
  addition of a cashier \<open>k\<close> to slot \<open>k\<close>.
\<close>

theorem cashier_writes_own_slot_only:
  assumes "run fl main_init tr0 s" "run fl s tr t"
  shows "((\<forall>e \<in> set tr. cashier_of e \<noteq> Some j) \<longrightarrow>
            cashier_times t ! j = cashier_times s ! j) \<and>
         ((\<forall>e \<in> set tr. cashier_of e = Some i) \<and> j \<noteq> i \<longrightarrow>
            cashier_times t ! j = cashier_times s ! j \<and>
            run fl (s\<lparr>cashier_times := (cashier_times s)[j := v]\<rparr>) tr
                   (t\<lparr>cashier_times := (cashier_times t)[j := v]\<rparr>)) \<and>
         (\<forall>e u. step fl s e u \<longrightarrow>
            cashier_times u =
              (case e of
                 EAddTime k x \<Rightarrow> (cashier_times s)[k := py_add fl (cashier_times s ! k) x]
               | _ \<Rightarrow> cashier_times s))"
proof (intro conjI impI allI)
  assume "\<forall>e \<in> set tr. cashier_of e \<noteq> Some j"
  with run_frame_others[OF assms(2,1)] show "cashier_times t ! j = cashier_times s ! j" by simp
next
  assume a: "(\<forall>e \<in> set tr. cashier_of e = Some i) \<and> j \<noteq> i"
  from cashier_run_independent[OF assms, of i j v] a
  show "cashier_times t ! j = cashier_times s ! j"
    "run fl (s\<lparr>cashier_times := (cashier_times s)[j := v]\<rparr>) tr
            (t\<lparr>cashier_times := (cashier_times t)[j := v]\<rparr>)"
    by simp_all
next
  fix e u assume "step fl s e u"
  moreover have "inv_shape s" using run_invariant[OF assms(1)] by (simp add: invariant_def)
  ultimately show "cashier_times u =
              (case e of
                 EAddTime k x \<Rightarrow> (cashier_times s)[k := py_add fl (cashier_times s ! k) x]
               | _ \<Rightarrow> cashier_times s)"
    by (rule step_cashier_times)
qed

theorem cashier_writes_own_slot_only_witness:
  "\<exists>tr0 s tr t. run (\<lambda>x. x) main_init tr0 s \<and> run (\<lambda>x. x) s tr t \<and>
     cashier_times s ! 0 = PyInt 0 \<and> cashier_times t ! 0 = PyFloat 2 \<and>
     cashier_times t ! 1 = cashier_times s ! 1 \<and>
     run (\<lambda>x. x) (s\<lparr>cashier_times := (cashier_times s)[1 := PyInt 7]\<rparr>) tr
                (t\<lparr>cashier_times := (cashier_times t)[1 := PyInt 7]\<rparr>)"
proof -
  from one_cashier_run obtain tr0 s tr t where
    r: "run (\<lambda>x. x) main_init tr0 s" "run (\<lambda>x. x) s tr t" and
    a: "list_all (\<lambda>e. cashier_of e = Some 0) tr" and
    v: "cashier_times s ! 0 = PyInt 0" "cashier_times t ! 0 = PyFloat 2"
    by blast
  from a have b: "\<forall>e \<in> set tr. cashier_of e = Some 0" by (simp add: list_all_iff)
  have n: "(1::nat) \<noteq> 0" by simp
  have "cashier_times t ! 1 = cashier_times s ! 1 \<and>
        run (\<lambda>x. x) (s\<lparr>cashier_times := (cashier_times s)[1 := PyInt 7]\<rparr>) tr
                   (t\<lparr>cashier_times := (cashier_times t)[1 := PyInt 7]\<rparr>)"
    using cashier_writes_own_slot_only[OF r, of 1 0 "PyInt 7", THEN conjunct2, THEN conjunct1] b n
    by simp
  with r v show ?thesis by blast
qed

text \<open>
  C10. With rounding to the nearest float monotone, exact on 0 and 1 and leaving floats
  unchanged, every slot of \<open>cashier_times\<close> starts at 0, is never negative, and is never
  decreased: its value in a state the program reaches is at most its value in any later
  state. Only a cashier's addition changes \<open>cashier_times\<close>, and every amount added is a
  rounded checkout time of the catalog, which is not negative.
\<close>

theorem cashier_times_never_decrease:
  assumes "float_rounding fl" "run fl main_init tr0 s" "run fl s tr t" "j < 5"
  shows "cashier_times main_init ! j = PyInt 0 \<and>
         0 \<le> num_val (cashier_times s ! j) \<and>
         num_val (cashier_times s ! j) \<le> num_val (cashier_times t ! j) \<and>
         (\<forall>i x. EAddTime i x \<in> set (tr0 @ tr) \<longrightarrow>
            0 \<le> num_val x \<and>
            (\<exists>k<4. x = py_round fl (checkout_time (all_products fl ! k)) 2)) \<and>
         (\<forall>e u. step fl s e u \<longrightarrow>
            cashier_times u =
              (case e of
                 EAddTime i x \<Rightarrow> (cashier_times s)[i := py_add fl (cashier_times s ! i) x]
               | _ \<Rightarrow> cashier_times s))"
proof -
  have inv: "invariant s" using assms(2) by (rule run_invariant)
  then have sh: "inv_shape s" by (simp add: invariant_def)
  then have len: "length (cashier_times s) = 5" "length (cashiers s) = 5"
    by (simp_all add: inv_shape_def)
  have sl: "inv_slots fl s" "tr_take fl tr0" using run_inv_slots[OF assms(2,1)] by simp_all
  have 1: "cashier_times main_init ! j = PyInt 0" using assms(4) by (simp add: main_init_def)
  have 2: "0 \<le> num_val (cashier_times s ! j)"
    using sl(1) assms(4) len slot_ok_nonneg by (auto simp: inv_slots_def)
  have 3: "num_val (cashier_times s ! j) \<le> num_val (cashier_times t ! j)"
    using assms(3,2)
  proof (induction rule: run.induct)
    case (run_nil s)
    show ?case by simp
  next
    case (run_snoc s tr m e t)
    have r: "run fl main_init (tr0 @ tr) m" using run_trans[OF run_snoc.hyps(1) run_snoc.prems] .
    have im: "invariant m" using r by (rule run_invariant)
    then have lm: "length (cashier_times m) = 5" by (simp add: invariant_def inv_shape_def)
    have "num_val (cashier_times m ! j) \<le> num_val (cashier_times t ! j)"
      using step_inv_slots[OF run_snoc.hyps(2) im run_inv_products[OF r] assms(1)]
        run_inv_slots[OF r assms(1)] assms(4) lm by simp
    with run_snoc.IH[OF run_snoc.prems] show ?case by simp
  qed
  have "tr_take fl (tr0 @ tr)"
    using run_inv_slots[OF run_trans[OF assms(3,2)] assms(1)] by simp
  then have 4: "\<forall>i x. EAddTime i x \<in> set (tr0 @ tr) \<longrightarrow>
            0 \<le> num_val x \<and>
            (\<exists>k<4. x = py_round fl (checkout_time (all_products fl ! k)) 2)"
    using take_time_nonneg[OF assms(1)] unfolding tr_take_def take_time_def by metis
  have 5: "\<forall>e u. step fl s e u \<longrightarrow>
            cashier_times u =
              (case e of
                 EAddTime i x \<Rightarrow> (cashier_times s)[i := py_add fl (cashier_times s ! i) x]
               | _ \<Rightarrow> cashier_times s)"
  proof (intro allI impI)
    fix e u assume "step fl s e u"
    then show "cashier_times u =
              (case e of
                 EAddTime i x \<Rightarrow> (cashier_times s)[i := py_add fl (cashier_times s ! i) x]
               | _ \<Rightarrow> cashier_times s)"
      using sh
    proof (induction rule: step.induct)
      case (cashier_add_time i s w customer product_take_time rest times')
      then show ?case using add_time_ok[of s i fl product_take_time] by simp
    qed simp_all
  qed
  show ?thesis using 1 2 3 4 5 by blast
qed

theorem cashier_times_never_decrease_witness:
  "float_rounding (\<lambda>x. x) \<and>
   (\<exists>tr0 s tr t. run (\<lambda>x. x) main_init tr0 s \<and> run (\<lambda>x. x) s tr t \<and>
      cashier_times s ! 0 = PyInt 0 \<and> cashier_times t ! 0 = PyFloat 2 \<and>
      0 \<le> num_val (cashier_times s ! 0) \<and>
      num_val (cashier_times s ! 0) \<le> num_val (cashier_times t ! 0))"
proof -
  have fr: "float_rounding (\<lambda>x. x)" by (simp add: float_rounding_def mono_def)
  from one_cashier_run obtain tr0 s tr t where
    r: "run (\<lambda>x. x) main_init tr0 s" "run (\<lambda>x. x) s tr t" and
    v: "cashier_times s ! 0 = PyInt 0" "cashier_times t ! 0 = PyFloat 2"
    by blast
  have z: "(0::nat) < 5" by simp
  from cashier_times_never_decrease[OF fr r z] r v fr show ?thesis by blast
qed

end
